theory Spec2Isabelle
  imports Main "HOL-Library.Word" "HOL-Library.AList" "HOL-Library.Sublist"
begin

section \<open>The client of process_max_batch (client/main.go)\<close>

text \<open>
  The client keeps a queue of items, filled by the HTTP handler \<^verbatim>\<open>HandleProcess\<close>, and one
  goroutine started by \<^verbatim>\<open>RunProcess\<close> that calls \<^verbatim>\<open>ProcessQueue\<close> in a loop. Each call sends
  a prefix of the queue to the server, no longer than what the server's limit (a number of
  items per duration) still allows, and removes the prefix once the server has answered
  with success.

  The embedding is state passing. What the Go code reads from outside (the clock, the
  answer of the server, the items that handlers append while a call is running) is an
  argument of the function that reads it.
\<close>

subsection \<open>Data\<close>

text \<open>
  \<^verbatim>\<open>LimitsResponse\<close>: \<^verbatim>\<open>Number uint64\<close> and \<^verbatim>\<open>Duration time.Duration\<close>, an \<^verbatim>\<open>int64\<close> of
  nanoseconds. Both come from the server's JSON, so every 64-bit value can arrive: they are
  words. \<^verbatim>\<open>int(limits.Number)\<close> is \<open>sint\<close>, and \<^verbatim>\<open>timestamp+int64(limits.Duration)\<close> is
  the wrapping \<open>+\<close> of \<open>64 word\<close>, compared as signed by \<open><s\<close>.
\<close>

record LimitsResponse =
  Number :: "64 word"
  Duration :: "64 word"

text \<open>
  The globals \<^verbatim>\<open>Queue.Batch\<close> and \<^verbatim>\<open>TotalProcessed\<close>, and the variables of \<^verbatim>\<open>RunProcess\<close>
  that its goroutine owns: the map \<^verbatim>\<open>processedItems\<close> (\<^verbatim>\<open>map[int64]int\<close>, kept as an
  association list from timestamp to count), \<^verbatim>\<open>errorsCount\<close>, and whether the goroutine is
  still in its loop.

  \<^verbatim>\<open>Item\<close> is an empty struct that the client never inspects; the item type is a type
  variable, so that order and identity of items can be stated.

  The Go \<^verbatim>\<open>int\<close>s are \<open>int\<close>: in the states that the client reaches, \<^verbatim>\<open>errorsCount\<close> never
  passes 10 (lemma \<open>run_bounded\<close> below), the counts of the map and \<^verbatim>\<open>limit\<close> stay inside
  the range of 64 bits (lemmas \<open>counts_in_range\<close> and \<open>limit_in_range\<close>), and a length is
  below \<open>2 ^ 63\<close> in Go; \<^verbatim>\<open>TotalProcessed\<close> would wrap only after \<open>2 ^ 63\<close> processed items.
\<close>

record 'a state =
  Queue :: "'a list"
  TotalProcessed :: int
  processedItems :: "(64 word \<times> int) list"
  errorsCount :: int
  running :: bool

text \<open>The errors \<^verbatim>\<open>ProcessQueue\<close> returns, named after the call that fails.\<close>

datatype error =
    MarshalError
  | NewRequestError
  | DoError
  | ReadAllError
  | UnmarshalError
  | ErrorResponse string

text \<open>
  What happens to one submission: which of the calls of lines 228 to 259 fails, or the
  \<^verbatim>\<open>ProcessResponse\<close> (fields \<^verbatim>\<open>Success\<close> and \<^verbatim>\<open>Error\<close>) that the server sends.
\<close>

datatype submission =
    MarshalFails
  | NewRequestFails
  | DoFails
  | ReadAllFails
  | UnmarshalFails
  | Responds bool string

text \<open>
  The surroundings of one call of \<^verbatim>\<open>ProcessQueue\<close>:
  \<^item> \<open>clockAt ts\<close>: the value of \<^verbatim>\<open>time.Now().UnixNano()\<close> at line 212 when the \<^verbatim>\<open>range\<close>
    loop visits the entry with key \<open>ts\<close>. The loop reads the clock once per entry and Go
    leaves the order of the visits open; a function of the key covers every order.
  \<^item> \<open>clockRecord\<close>: the value of \<^verbatim>\<open>time.Now().UnixNano()\<close> at line 238.
  \<^item> \<open>arrivedBeforeLock\<close>: the items appended by handlers after the test of line 205 and
    before the lock of line 223.
  \<^item> \<open>arrivedInFlight\<close>: the items appended by handlers between the unlock of line 233
    and the lock of line 267, that is while the request is under way.
  \<^item> \<open>outcome\<close>: what happens to the submission.
  Items appended at any other moment are requests handled between two calls.
\<close>

record 'a env =
  clockAt :: "64 word \<Rightarrow> 64 word"
  clockRecord :: "64 word"
  arrivedBeforeLock :: "'a list"
  arrivedInFlight :: "'a list"
  outcome :: submission

subsection \<open>ProcessQueue\<close>

text \<open>
  Lines 211 to 217: every entry whose timestamp plus the duration lies before the clock is
  deleted, every other entry's count is subtracted from \<^verbatim>\<open>limit\<close>.
\<close>

fun pruneLoop ::
  "64 word \<Rightarrow> (64 word \<Rightarrow> 64 word) \<Rightarrow> (64 word \<times> int) list \<Rightarrow> int \<Rightarrow> (64 word \<times> int) list \<times> int"
where
  "pruneLoop d clk [] limit = ([], limit)"
| "pruneLoop d clk ((timestamp, item) # rest) limit =
     (if timestamp + d <s clk timestamp
      then pruneLoop d clk rest limit
      else (case pruneLoop d clk rest (limit - item) of
              (kept, limit') \<Rightarrow> ((timestamp, item) # kept, limit')))"

text \<open>
  Lines 240 to 265: the error with which the exchange with the server ends, \<open>None\<close> when
  the server answers with \<^verbatim>\<open>Success\<close>.
\<close>

fun roundTrip :: "submission \<Rightarrow> error option" where
  "roundTrip MarshalFails = Some MarshalError"
| "roundTrip NewRequestFails = Some NewRequestError"
| "roundTrip DoFails = Some DoError"
| "roundTrip ReadAllFails = Some ReadAllError"
| "roundTrip UnmarshalFails = Some UnmarshalError"
| "roundTrip (Responds success msg) =
     (if \<not> success then Some (ErrorResponse (''Error response from server: '' @ msg)) else None)"

text \<open>Lines 268 to 272: the queue without its first \<open>limit\<close> items.\<close>

definition removePrefix :: "int \<Rightarrow> 'a list \<Rightarrow> 'a list" where
  "removePrefix limit q = (if int (length q) \<le> limit then [] else drop (nat limit) q)"

text \<open>
  What one call of \<^verbatim>\<open>ProcessQueue\<close> does besides changing the state: the error it returns,
  the batch in the body of the request when \<^verbatim>\<open>client.Do\<close> is called, the items that
  lines 267 to 273 take off the queue, and (\<open>joined\<close>) the items that handlers appended to
  the queue while the call was running.
\<close>

record 'a effects =
  err :: "error option"
  sent :: "'a list option"
  removed :: "'a list"
  joined :: "'a list"

definition quiet :: "'a effects" where
  "quiet = \<lparr>err = None, sent = None, removed = [], joined = []\<rparr>"

definition ProcessQueue :: "LimitsResponse \<Rightarrow> 'a env \<Rightarrow> 'a state \<Rightarrow> 'a effects \<times> 'a state" where
  "ProcessQueue limits e s =
    (if length (Queue s) = 0 then (quiet, s)
     else
       (case pruneLoop (Duration limits) (clockAt e) (processedItems s) (sint (Number limits)) of
          (kept, limit0) \<Rightarrow>
            if limit0 \<le> 0 then (quiet, s\<lparr>processedItems := kept\<rparr>)
            else
              let q = Queue s @ arrivedBeforeLock e;
                  limit = (if int (length q) < limit0 then int (length q) else limit0);
                  body = take (nat limit) q
              in
                if outcome e = MarshalFails
                then (\<lparr>err = Some MarshalError, sent = None, removed = [],
                        joined = arrivedBeforeLock e\<rparr>,
                      s\<lparr>Queue := q, processedItems := kept\<rparr>)
                else
                  let s1 = s\<lparr>Queue := q,
                             processedItems := AList.update (clockRecord e) limit kept\<rparr>
                  in
                    (case roundTrip (outcome e) of
                       Some x \<Rightarrow>
                         (\<lparr>err = Some x,
                           sent = (if outcome e = NewRequestFails then None else Some body),
                           removed = [],
                           joined = arrivedBeforeLock e\<rparr>,
                          s1)
                     | None \<Rightarrow>
                         let q2 = Queue s1 @ arrivedInFlight e
                         in (\<lparr>err = None, sent = Some body, removed = take (nat limit) q2,
                              joined = arrivedBeforeLock e @ arrivedInFlight e\<rparr>,
                             s1\<lparr>Queue := removePrefix limit q2,
                                TotalProcessed := TotalProcessed s1 + limit\<rparr>))))"

subsection \<open>HandleProcess\<close>

text \<open>
  The handler's answer: status 200, or status 400 with the text of \<^verbatim>\<open>ProcessResponse.Error\<close>.
  Its input is what \<^verbatim>\<open>c.ShouldBindJSON\<close> makes of the request: an error (\<open>Inl\<close>, with its
  text) or the list \<^verbatim>\<open>data.Data\<close>.
\<close>

datatype response = StatusOK | StatusBadRequest string

definition HandleProcess :: "string + 'a list \<Rightarrow> 'a state \<Rightarrow> response \<times> 'a state" where
  "HandleProcess bound s =
    (case bound of
       Inl msg \<Rightarrow> (StatusBadRequest msg, s)
     | Inr data \<Rightarrow>
         if length data = 0 then (StatusBadRequest ''No items provided'', s)
         else (StatusOK, s\<lparr>Queue := Queue s @ data\<rparr>))"

subsection \<open>The loop of RunProcess\<close>

text \<open>
  Lines 187 to 197, one pass through the \<^verbatim>\<open>default\<close> branch: \<^verbatim>\<open>errorsCount\<close> goes up by one
  when \<^verbatim>\<open>ProcessQueue\<close> returns an error and back to 0 when it returns \<^verbatim>\<open>nil\<close>; at 10 the
  goroutine returns.
\<close>

definition loopPass :: "LimitsResponse \<Rightarrow> 'a env \<Rightarrow> 'a state \<Rightarrow> 'a effects \<times> 'a state" where
  "loopPass limits e s =
    (case ProcessQueue limits e s of
       (r, s') \<Rightarrow>
         let n = (if err r \<noteq> None then errorsCount s' + 1 else 0)
         in (r, s'\<lparr>errorsCount := n, running := \<not> (n \<ge> 10)\<rparr>))"

text \<open>
  What can happen to the running client: a request to \<^verbatim>\<open>/client/process\<close>, the goroutine
  receiving from \<^verbatim>\<open>Channel\<close> what \<^verbatim>\<open>HandleStop\<close> sends, or one pass of the loop. A goroutine
  that has returned makes no pass and receives nothing.
\<close>

datatype 'a event =
    Request "string + 'a list"
  | StopSignal
  | Pass "'a env"

datatype 'a observation =
    Answered response
  | Drained "'a effects"
  | Halted
  | Nothing

fun step :: "LimitsResponse \<Rightarrow> 'a event \<Rightarrow> 'a state \<Rightarrow> 'a observation \<times> 'a state" where
  "step limits (Request bound) s =
     (case HandleProcess bound s of (r, s') \<Rightarrow> (Answered r, s'))"
| "step limits StopSignal s =
     (if running s then (Halted, s\<lparr>running := False\<rparr>) else (Nothing, s))"
| "step limits (Pass e) s =
     (if running s then (case loopPass limits e s of (r, s') \<Rightarrow> (Drained r, s'))
      else (Nothing, s))"

fun run :: "LimitsResponse \<Rightarrow> 'a event list \<Rightarrow> 'a state \<Rightarrow> 'a state" where
  "run limits [] s = s"
| "run limits (ev # evs) s = run limits evs (snd (step limits ev s))"

fun trace :: "LimitsResponse \<Rightarrow> 'a event list \<Rightarrow> 'a state \<Rightarrow> 'a observation list" where
  "trace limits [] s = []"
| "trace limits (ev # evs) s =
     fst (step limits ev s) # trace limits evs (snd (step limits ev s))"

text \<open>
  The state in which the goroutine starts (lines 177 to 180): \<^verbatim>\<open>main\<close> calls \<^verbatim>\<open>RunProcess\<close>
  before it serves requests, so the queue is empty and nothing has been processed. (When
  \<^verbatim>\<open>RunProcess\<close> cannot fetch the limits it returns before line 177 and there is no loop.)
\<close>

definition initial :: "'a state" where
  "initial = \<lparr>Queue = [], TotalProcessed = 0, processedItems = [], errorsCount = 0,
              running = True\<rparr>"


subsection \<open>Quantities of one call\<close>

text \<open>
  The entries that the loop of lines 211 to 217 keeps, the sum of the counts of a map, the
  value of \<^verbatim>\<open>limit\<close> after that loop, and its value after lines 224 to 226.
\<close>

definition live ::
  "64 word \<Rightarrow> (64 word \<Rightarrow> 64 word) \<Rightarrow> (64 word \<times> int) list \<Rightarrow> (64 word \<times> int) list"
where
  "live d clk items = filter (\<lambda>(timestamp, item). \<not> timestamp + d <s clk timestamp) items"

definition total :: "(64 word \<times> int) list \<Rightarrow> int" where
  "total items = sum_list (map snd items)"

definition capacity :: "LimitsResponse \<Rightarrow> 'a env \<Rightarrow> 'a state \<Rightarrow> int" where
  "capacity limits e s =
     sint (Number limits) - total (live (Duration limits) (clockAt e) (processedItems s))"

definition batchSize :: "LimitsResponse \<Rightarrow> 'a env \<Rightarrow> 'a state \<Rightarrow> int" where
  "batchSize limits e s =
     min (capacity limits e s) (int (length (Queue s @ arrivedBeforeLock e)))"

subsection \<open>Quantities of a run\<close>

text \<open>The items that the calls of \<^verbatim>\<open>ProcessQueue\<close> of a run took off the queue, in order.\<close>

fun taken :: "'a observation \<Rightarrow> 'a list" where
  "taken (Drained r) = removed r"
| "taken _ = []"

definition drained :: "'a observation list \<Rightarrow> 'a list" where
  "drained obs = concat (map taken obs)"

text \<open>
  The items that were appended to the queue during a run, in order: the lists of the
  requests answered with status 200, and what handlers appended during the calls of
  \<^verbatim>\<open>ProcessQueue\<close>.
\<close>

fun arrived :: "'a event \<Rightarrow> 'a observation \<Rightarrow> 'a list" where
  "arrived (Request (Inr data)) (Answered StatusOK) = data"
| "arrived (Pass e) (Drained r) = joined r"
| "arrived _ _ = []"

definition enqueued :: "'a event list \<Rightarrow> 'a observation list \<Rightarrow> 'a list" where
  "enqueued evs obs = concat (map (\<lambda>(ev, ob). arrived ev ob) (zip evs obs))"

text \<open>
  The number of calls of \<^verbatim>\<open>ProcessQueue\<close> in a row, up to the end of the run, that returned
  an error; \<open>n\<close> is that number at the start.
\<close>

fun errorsInARow :: "int \<Rightarrow> 'a observation list \<Rightarrow> int" where
  "errorsInARow n [] = n"
| "errorsInARow n (Drained r # obs) = errorsInARow (if err r \<noteq> None then n + 1 else 0) obs"
| "errorsInARow n (_ # obs) = errorsInARow n obs"

text \<open>A call of \<^verbatim>\<open>ProcessQueue\<close> that returned an error; the batch that a call sent.\<close>

fun failedPass :: "'a observation \<Rightarrow> bool" where
  "failedPass (Drained r) = (err r \<noteq> None)"
| "failedPass _ = False"

fun submitted :: "'a observation \<Rightarrow> 'a list option" where
  "submitted (Drained r) = sent r"
| "submitted _ = None"

text \<open>
  What the calls of a run recorded at line 238 for the batches they sent, in order: the
  reading of the clock at that line and the size of the batch.
\<close>

fun sentAt :: "'a event \<Rightarrow> 'a observation \<Rightarrow> (64 word \<times> int) list" where
  "sentAt (Pass e) (Drained r) =
     (case sent r of Some b \<Rightarrow> [(clockRecord e, int (length b))] | None \<Rightarrow> [])"
| "sentAt _ _ = []"

definition recorded :: "'a event list \<Rightarrow> 'a observation list \<Rightarrow> (64 word \<times> int) list" where
  "recorded evs obs = concat (map (\<lambda>(ev, ob). sentAt ev ob) (zip evs obs))"

text \<open>
  The sum of the counts of the entries whose timestamp lies in the interval \<open>(t - d, t]\<close>.
\<close>

definition windowSum :: "int \<Rightarrow> int \<Rightarrow> (64 word \<times> int) list \<Rightarrow> int" where
  "windowSum d t items =
     total (filter (\<lambda>(timestamp, item). t - d < sint timestamp \<and> sint timestamp \<le> t) items)"

text \<open>
  What holds of the map at every moment: every count is positive, and the counts add up to
  at most \<^verbatim>\<open>int(limits.Number)\<close>, or to 0 when that is negative.
\<close>

definition withinQuota :: "LimitsResponse \<Rightarrow> (64 word \<times> int) list \<Rightarrow> bool" where
  "withinQuota limits items \<longleftrightarrow>
     (\<forall>x \<in> set items. 0 < snd x) \<and> total items \<le> max 0 (sint (Number limits))"

subsection \<open>The words of the specification\<close>

text \<open>
  The error streak as the specification defines it: the number of failed submission
  attempts since the last successful submission. A call that makes no attempt leaves it
  as it is.
\<close>

fun failedSinceSuccess :: "int \<Rightarrow> 'a observation list \<Rightarrow> int" where
  "failedSinceSuccess n [] = n"
| "failedSinceSuccess n (Drained r # obs) =
     failedSinceSuccess (if err r \<noteq> None then n + 1 else if sent r \<noteq> None then 0 else n) obs"
| "failedSinceSuccess n (_ # obs) = failedSinceSuccess n obs"

text \<open>
  \<^verbatim>\<open>RemainingCapacity(now)\<close> as the specification defines it: the entries with
  \<open>timestamp + D < now\<close> are pruned, the counts of the others are summed, and the result
  is \<open>N\<close> minus that sum, but at least 0.
\<close>

definition survivors :: "int \<Rightarrow> int \<Rightarrow> (64 word \<times> int) list \<Rightarrow> (64 word \<times> int) list" where
  "survivors d now items = filter (\<lambda>(timestamp, item). \<not> sint timestamp + d < now) items"

definition RemainingCapacity :: "int \<Rightarrow> int \<Rightarrow> int \<Rightarrow> (64 word \<times> int) list \<Rightarrow> int" where
  "RemainingCapacity n d now items = max 0 (n - total (survivors d now items))"

subsection \<open>Concrete surroundings\<close>

text \<open>
  The limits of the mock server (10 items per 15 seconds), limits of 1 and of 30 items,
  surroundings in which every reading of the clock is \<open>now\<close> (without and with handlers
  running during the call), and the state of a client with the items \<open>q\<close> in its queue
  (without and with entries in its map).
\<close>

definition limits10 :: LimitsResponse where
  "limits10 = \<lparr>Number = 10, Duration = 15000000000\<rparr>"

definition limits1 :: LimitsResponse where
  "limits1 = \<lparr>Number = 1, Duration = 15000000000\<rparr>"

definition limits30 :: LimitsResponse where
  "limits30 = \<lparr>Number = 30, Duration = 15000000000\<rparr>"

definition envAt :: "64 word \<Rightarrow> submission \<Rightarrow> 'a env" where
  "envAt now out = \<lparr>clockAt = (\<lambda>_. now), clockRecord = now, arrivedBeforeLock = [],
                     arrivedInFlight = [], outcome = out\<rparr>"

definition envWith :: "64 word \<Rightarrow> submission \<Rightarrow> 'a list \<Rightarrow> 'a list \<Rightarrow> 'a env" where
  "envWith now out early late = \<lparr>clockAt = (\<lambda>_. now), clockRecord = now,
     arrivedBeforeLock = early, arrivedInFlight = late, outcome = out\<rparr>"

definition queued :: "'a list \<Rightarrow> 'a state" where
  "queued q = initial\<lparr>Queue := q\<rparr>"

definition tracking :: "(64 word \<times> int) list \<Rightarrow> 'a list \<Rightarrow> 'a state" where
  "tracking items q = initial\<lparr>Queue := q, processedItems := items\<rparr>"

text \<open>
  An outage with the limits of the mock server: three items are queued and every
  \<^verbatim>\<open>client.Do\<close> fails. Four calls in a row send a batch and fail, the fifth finds no
  capacity left; more than 15 seconds later the same happens again, and later again two
  calls send and fail.
\<close>

definition outage :: "nat event list" where
  "outage =
    [Request (Inr [1, 2, 3]),
     Pass (envAt 1 DoFails), Pass (envAt 2 DoFails), Pass (envAt 3 DoFails),
     Pass (envAt 4 DoFails), Pass (envAt 5 DoFails),
     Pass (envAt 20000000001 DoFails), Pass (envAt 20000000002 DoFails),
     Pass (envAt 20000000003 DoFails), Pass (envAt 20000000004 DoFails),
     Pass (envAt 20000000005 DoFails),
     Pass (envAt 40000000001 DoFails), Pass (envAt 40000000002 DoFails)]"

text \<open>Ten calls in a row, a nanosecond apart, whose \<^verbatim>\<open>client.Do\<close> fails.\<close>

definition tenFailures :: "nat env list" where
  "tenFailures = map (\<lambda>now. envAt now DoFails) [1, 2, 3, 4, 5, 6, 7, 8, 9, 10]"

text \<open>
  Scenario B: a request with 25 items, then successful calls at 1000 ns, at 2000 ns, 15
  seconds after the first and one nanosecond later.
\<close>

definition burst :: "nat event list" where
  "burst =
    [Request (Inr [1, 2, 3, 4, 5, 6, 7, 8, 9, 10, 11, 12, 13, 14, 15, 16, 17, 18, 19, 20,
                   21, 22, 23, 24, 25]),
     Pass (envAt 1000 (Responds True [])),
     Pass (envAt 2000 (Responds True [])),
     Pass (envAt 15000001000 (Responds True [])),
     Pass (envAt 15000001001 (Responds True []))]"

text \<open>
  Two calls that read the same value of the clock at line 238: six items are sent at
  1000 ns, six more arrive, four of them are sent by a call that reads 1000 ns again, and
  the last two by a call at 2000 ns.
\<close>

definition collide :: "nat event list" where
  "collide =
    [Request (Inr [1, 2, 3, 4, 5, 6]),
     Pass (envAt 1000 (Responds True [])),
     Request (Inr [7, 8, 9, 10, 11, 12]),
     Pass (envAt 1000 (Responds True [])),
     Pass (envAt 2000 (Responds True []))]"

text \<open>Limits whose duration is the largest \<^verbatim>\<open>int64\<close>.\<close>

definition forever :: LimitsResponse where
  "forever = \<lparr>Number = 10, Duration = 9223372036854775807\<rparr>"

text \<open>
  A run that leaves the entries \<open>(1000, 3)\<close> and \<open>(2000, 5)\<close> in the map and ten items in
  the queue, and a call, 15 seconds later, whose loop visits the first entry at
  15000001000 ns and the second at 15000002001 ns.
\<close>

definition twoEntries :: "nat event list" where
  "twoEntries =
    [Request (Inr [1, 2, 3]),
     Pass (envAt 1000 (Responds True [])),
     Request (Inr [4, 5, 6, 7, 8]),
     Pass (envAt 2000 (Responds True [])),
     Request (Inr [9, 10, 11, 12, 13, 14, 15, 16, 17, 18])]"

definition splitClock :: "nat env" where
  "splitClock =
     \<lparr>clockAt = (\<lambda>timestamp. if timestamp = 1000 then 15000001000 else 15000002001),
      clockRecord = 15000002002, arrivedBeforeLock = [], arrivedInFlight = [],
      outcome = Responds True []\<rparr>"

section \<open>The cases of ProcessQueue\<close>

lemma pruneLoop_eq:
  "pruneLoop d clk items limit = (live d clk items, limit - total (live d clk items))"
  by (induction items arbitrary: limit) (auto simp: live_def total_def)

lemma cut_queue:
  assumes "n \<le> int (length q)"
  shows "removePrefix n (q @ a) = drop (nat n) q @ a"
proof (cases "int (length (q @ a)) \<le> n")
  case True
  then have "int (length q) + int (length a) \<le> n" by simp
  with assms have "length a = 0" by linarith
  then have a: "a = []" by simp
  from True have "length q \<le> nat n" by simp
  with a True show ?thesis by (simp add: removePrefix_def)
next
  case False
  from assms have "nat n \<le> length q" by linarith
  with False show ?thesis by (simp add: removePrefix_def)
qed

lemma take_queue:
  assumes "n \<le> int (length q)"
  shows "take (nat n) (q @ a) = take (nat n) q"
proof -
  from assms have "nat n \<le> length q" by linarith
  then show ?thesis by simp
qed

lemma take_length_take: "take (length (take n q)) q = take n q"
  by (simp add: min_def)

lemma batchSize_le: "batchSize limits e s \<le> int (length (Queue s @ arrivedBeforeLock e))"
  by (simp add: batchSize_def)

lemma batchSize_le_capacity: "batchSize limits e s \<le> capacity limits e s"
  by (simp add: batchSize_def)

lemma batchSize_pos:
  "Queue s \<noteq> [] \<Longrightarrow> 0 < capacity limits e s \<Longrightarrow> 0 < batchSize limits e s"
  by (cases "Queue s") (simp_all add: batchSize_def)

lemma length_batch:
  "0 < batchSize limits e s \<Longrightarrow>
   int (length (take (nat (batchSize limits e s)) (Queue s @ arrivedBeforeLock e)))
     = batchSize limits e s"
  using batchSize_le [of limits e s] by simp

lemma ProcessQueue_empty:
  "Queue s = [] \<Longrightarrow> ProcessQueue limits e s = (quiet, s)"
  by (simp add: ProcessQueue_def)

lemma ProcessQueue_exhausted:
  "Queue s \<noteq> [] \<Longrightarrow> capacity limits e s \<le> 0 \<Longrightarrow>
   ProcessQueue limits e s =
     (quiet, s\<lparr>processedItems := live (Duration limits) (clockAt e) (processedItems s)\<rparr>)"
  by (simp add: ProcessQueue_def pruneLoop_eq capacity_def)

lemma ProcessQueue_marshal:
  "Queue s \<noteq> [] \<Longrightarrow> 0 < capacity limits e s \<Longrightarrow> outcome e = MarshalFails \<Longrightarrow>
   ProcessQueue limits e s =
     (\<lparr>err = Some MarshalError, sent = None, removed = [], joined = arrivedBeforeLock e\<rparr>,
      s\<lparr>Queue := Queue s @ arrivedBeforeLock e,
        processedItems := live (Duration limits) (clockAt e) (processedItems s)\<rparr>)"
  by (simp add: ProcessQueue_def pruneLoop_eq capacity_def Let_def)

lemma ProcessQueue_failed:
  "Queue s \<noteq> [] \<Longrightarrow> 0 < capacity limits e s \<Longrightarrow> outcome e \<noteq> MarshalFails \<Longrightarrow>
   roundTrip (outcome e) = Some x \<Longrightarrow>
   ProcessQueue limits e s =
     (\<lparr>err = Some x,
       sent = (if outcome e = NewRequestFails then None
               else Some (take (nat (batchSize limits e s)) (Queue s @ arrivedBeforeLock e))),
       removed = [], joined = arrivedBeforeLock e\<rparr>,
      s\<lparr>Queue := Queue s @ arrivedBeforeLock e,
        processedItems := AList.update (clockRecord e) (batchSize limits e s)
           (live (Duration limits) (clockAt e) (processedItems s))\<rparr>)"
  by (auto simp add: ProcessQueue_def pruneLoop_eq capacity_def batchSize_def Let_def min_def)

lemma ProcessQueue_accepted:
  assumes "Queue s \<noteq> []" and "0 < capacity limits e s" and "roundTrip (outcome e) = None"
  shows "ProcessQueue limits e s =
     (\<lparr>err = None,
       sent = Some (take (nat (batchSize limits e s)) (Queue s @ arrivedBeforeLock e)),
       removed = take (nat (batchSize limits e s)) (Queue s @ arrivedBeforeLock e),
       joined = arrivedBeforeLock e @ arrivedInFlight e\<rparr>,
      s\<lparr>Queue := drop (nat (batchSize limits e s)) (Queue s @ arrivedBeforeLock e)
                   @ arrivedInFlight e,
        processedItems := AList.update (clockRecord e) (batchSize limits e s)
           (live (Duration limits) (clockAt e) (processedItems s)),
        TotalProcessed := TotalProcessed s + batchSize limits e s\<rparr>)"
proof -
  let ?q = "Queue s @ arrivedBeforeLock e"
  let ?n = "batchSize limits e s"
  from assms(3) have m: "outcome e \<noteq> MarshalFails" by (cases "outcome e") auto
  have n: "(if int (length ?q) < capacity limits e s then int (length ?q)
            else capacity limits e s) = ?n"
    by (simp add: batchSize_def min_def)
  have c: "removePrefix ?n (?q @ arrivedInFlight e) = drop (nat ?n) ?q @ arrivedInFlight e"
    by (rule cut_queue) (rule batchSize_le)
  have t: "take (nat ?n) (?q @ arrivedInFlight e) = take (nat ?n) ?q"
    by (rule take_queue) (rule batchSize_le)
  have "pruneLoop (Duration limits) (clockAt e) (processedItems s) (sint (Number limits))
        = (live (Duration limits) (clockAt e) (processedItems s), capacity limits e s)"
    by (simp add: pruneLoop_eq capacity_def)
  with assms m show ?thesis
    unfolding ProcessQueue_def Let_def
    by (simp add: n c t del: append_assoc drop_append take_append length_append)
qed

text \<open>The five ways through \<^verbatim>\<open>ProcessQueue\<close>.\<close>

lemma ProcessQueue_cases:
  obtains (empty) "Queue s = []" "ProcessQueue limits e s = (quiet, s)"
  | (exhausted) "Queue s \<noteq> []" "capacity limits e s \<le> 0"
      "ProcessQueue limits e s =
        (quiet, s\<lparr>processedItems := live (Duration limits) (clockAt e) (processedItems s)\<rparr>)"
  | (marshal) "Queue s \<noteq> []" "0 < capacity limits e s" "outcome e = MarshalFails"
      "ProcessQueue limits e s =
        (\<lparr>err = Some MarshalError, sent = None, removed = [], joined = arrivedBeforeLock e\<rparr>,
         s\<lparr>Queue := Queue s @ arrivedBeforeLock e,
           processedItems := live (Duration limits) (clockAt e) (processedItems s)\<rparr>)"
  | (failed) x where "Queue s \<noteq> []" "0 < capacity limits e s" "outcome e \<noteq> MarshalFails"
      "roundTrip (outcome e) = Some x"
      "ProcessQueue limits e s =
        (\<lparr>err = Some x,
          sent = (if outcome e = NewRequestFails then None
                  else Some (take (nat (batchSize limits e s)) (Queue s @ arrivedBeforeLock e))),
          removed = [], joined = arrivedBeforeLock e\<rparr>,
         s\<lparr>Queue := Queue s @ arrivedBeforeLock e,
           processedItems := AList.update (clockRecord e) (batchSize limits e s)
              (live (Duration limits) (clockAt e) (processedItems s))\<rparr>)"
  | (accepted) "Queue s \<noteq> []" "0 < capacity limits e s" "roundTrip (outcome e) = None"
      "ProcessQueue limits e s =
        (\<lparr>err = None,
          sent = Some (take (nat (batchSize limits e s)) (Queue s @ arrivedBeforeLock e)),
          removed = take (nat (batchSize limits e s)) (Queue s @ arrivedBeforeLock e),
          joined = arrivedBeforeLock e @ arrivedInFlight e\<rparr>,
         s\<lparr>Queue := drop (nat (batchSize limits e s)) (Queue s @ arrivedBeforeLock e)
                      @ arrivedInFlight e,
           processedItems := AList.update (clockRecord e) (batchSize limits e s)
              (live (Duration limits) (clockAt e) (processedItems s)),
           TotalProcessed := TotalProcessed s + batchSize limits e s\<rparr>)"
proof (cases "Queue s = []")
  case True
  then show ?thesis using empty ProcessQueue_empty by blast
next
  case q: False
  show ?thesis
  proof (cases "capacity limits e s \<le> 0")
    case True
    with q show ?thesis using exhausted ProcessQueue_exhausted by blast
  next
    case False
    then have c: "0 < capacity limits e s" by simp
    show ?thesis
    proof (cases "outcome e = MarshalFails")
      case True
      with q c show ?thesis using marshal ProcessQueue_marshal by blast
    next
      case m: False
      show ?thesis
      proof (cases "roundTrip (outcome e)")
        case None
        with q c show ?thesis using accepted ProcessQueue_accepted by blast
      next
        case (Some x)
        with q c m show ?thesis using failed [of x] ProcessQueue_failed by blast
      qed
    qed
  qed
qed

lemma sent_batch:
  assumes "sent (fst (ProcessQueue limits e s)) = Some b"
  shows "Queue s \<noteq> []" and "0 < capacity limits e s" and "outcome e \<noteq> MarshalFails"
    and "int (length b) = batchSize limits e s"
    and "b = take (nat (batchSize limits e s)) (Queue s @ arrivedBeforeLock e)"
proof -
  have "Queue s \<noteq> [] \<and> 0 < capacity limits e s \<and> outcome e \<noteq> MarshalFails
        \<and> int (length b) = batchSize limits e s
        \<and> b = take (nat (batchSize limits e s)) (Queue s @ arrivedBeforeLock e)"
  proof (cases limits e s rule: ProcessQueue_cases)
    case empty
    with assms show ?thesis by (simp add: quiet_def)
  next
    case exhausted
    with assms show ?thesis by (simp add: quiet_def)
  next
    case marshal
    with assms show ?thesis by simp
  next
    case (failed x)
    with assms batchSize_pos [of s limits e] length_batch [of limits e s]
    show ?thesis by (auto simp del: take_append length_take split: if_splits)
  next
    case accepted
    then have "outcome e \<noteq> MarshalFails" by (cases "outcome e") auto
    with accepted assms batchSize_pos [of s limits e] length_batch [of limits e s]
    show ?thesis by (auto simp del: take_append length_take)
  qed
  then show "Queue s \<noteq> []" and "0 < capacity limits e s" and "outcome e \<noteq> MarshalFails"
    and "int (length b) = batchSize limits e s"
    and "b = take (nat (batchSize limits e s)) (Queue s @ arrivedBeforeLock e)"
    by blast+
qed

lemmas run_defs =
  ProcessQueue_def loopPass_def HandleProcess_def Let_def removePrefix_def quiet_def
  limits10_def limits1_def limits30_def envAt_def envWith_def queued_def tracking_def
  initial_def

section \<open>Steps and runs\<close>

lemma ProcessQueue_queue:
  "Queue s @ joined (fst (ProcessQueue limits e s))
     = removed (fst (ProcessQueue limits e s)) @ Queue (snd (ProcessQueue limits e s))"
  by (cases limits e s rule: ProcessQueue_cases) (simp_all add: quiet_def del: take_append drop_append)

lemma ProcessQueue_total:
  "TotalProcessed (snd (ProcessQueue limits e s))
     = TotalProcessed s + int (length (removed (fst (ProcessQueue limits e s))))"
proof (cases limits e s rule: ProcessQueue_cases)
  case accepted
  with batchSize_pos [of s limits e] length_batch [of limits e s]
  show ?thesis by (simp del: take_append length_take)
qed (simp_all add: quiet_def)

lemma ProcessQueue_loop_vars:
  "errorsCount (snd (ProcessQueue limits e s)) = errorsCount s"
  "running (snd (ProcessQueue limits e s)) = running s"
  by (cases limits e s rule: ProcessQueue_cases; simp)+

lemma loopPass_fst: "fst (loopPass limits e s) = fst (ProcessQueue limits e s)"
  by (simp add: loopPass_def Let_def case_prod_beta)

lemma loopPass_globals:
  "Queue (snd (loopPass limits e s)) = Queue (snd (ProcessQueue limits e s))"
  "TotalProcessed (snd (loopPass limits e s)) = TotalProcessed (snd (ProcessQueue limits e s))"
  "processedItems (snd (loopPass limits e s)) = processedItems (snd (ProcessQueue limits e s))"
  by (simp_all add: loopPass_def Let_def case_prod_beta)

lemma loopPass_errorsCount:
  "errorsCount (snd (loopPass limits e s))
     = (if err (fst (ProcessQueue limits e s)) \<noteq> None then errorsCount s + 1 else 0)"
  using ProcessQueue_loop_vars(1) [of limits e s]
  by (simp add: loopPass_def Let_def case_prod_beta)

lemma loopPass_running:
  "running (snd (loopPass limits e s)) \<longleftrightarrow> errorsCount (snd (loopPass limits e s)) < 10"
  by (auto simp add: loopPass_def Let_def case_prod_beta)

lemma step_Pass:
  "running s \<Longrightarrow> step limits (Pass e) s
     = (Drained (fst (ProcessQueue limits e s)), snd (loopPass limits e s))"
  by (simp add: loopPass_fst [symmetric] case_prod_beta)

lemma step_queue:
  "Queue s @ arrived ev (fst (step limits ev s))
     = taken (fst (step limits ev s)) @ Queue (snd (step limits ev s))"
proof (cases ev)
  case (Request bound)
  then show ?thesis by (cases bound) (simp_all add: HandleProcess_def)
next
  case StopSignal
  then show ?thesis by simp
next
  case (Pass e)
  show ?thesis
  proof (cases "running s")
    case True
    with Pass show ?thesis
      by (simp only: step_Pass fst_conv snd_conv arrived.simps taken.simps loopPass_globals
            ProcessQueue_queue)
  next
    case False
    with Pass show ?thesis by simp
  qed
qed

lemma step_total:
  "TotalProcessed (snd (step limits ev s))
     = TotalProcessed s + int (length (taken (fst (step limits ev s))))"
proof (cases ev)
  case (Request bound)
  then show ?thesis by (cases bound) (simp_all add: HandleProcess_def)
next
  case StopSignal
  then show ?thesis by simp
next
  case (Pass e)
  show ?thesis
  proof (cases "running s")
    case True
    with Pass show ?thesis
      by (simp only: step_Pass fst_conv snd_conv taken.simps loopPass_globals ProcessQueue_total)
  next
    case False
    with Pass show ?thesis by simp
  qed
qed

lemma enqueued_Cons: "enqueued (ev # evs) (ob # obs) = arrived ev ob @ enqueued evs obs"
  by (simp add: enqueued_def)

lemma drained_Cons: "drained (ob # obs) = taken ob @ drained obs"
  by (simp add: drained_def)

lemma run_queue:
  "Queue s @ enqueued evs (trace limits evs s)
     = drained (trace limits evs s) @ Queue (run limits evs s)"
proof (induction evs arbitrary: s)
  case Nil
  show ?case by (simp add: enqueued_def drained_def)
next
  case (Cons ev evs)
  let ?ob = "fst (step limits ev s)" and ?s = "snd (step limits ev s)"
  have "Queue s @ enqueued (ev # evs) (trace limits (ev # evs) s)
        = (Queue s @ arrived ev ?ob) @ enqueued evs (trace limits evs ?s)"
    by (simp add: enqueued_Cons)
  also have "\<dots> = taken ?ob @ (Queue ?s @ enqueued evs (trace limits evs ?s))"
    by (simp only: step_queue append_assoc)
  also have "\<dots> = taken ?ob @ drained (trace limits evs ?s) @ Queue (run limits evs ?s)"
    by (simp only: Cons.IH)
  finally show ?case by (simp add: drained_Cons)
qed

lemma run_total:
  "TotalProcessed (run limits evs s)
     = TotalProcessed s + int (length (drained (trace limits evs s)))"
proof (induction evs arbitrary: s)
  case Nil
  show ?case by (simp add: drained_def)
next
  case (Cons ev evs)
  show ?case by (simp add: Cons.IH step_total drained_Cons)
qed

lemma ProcessQueue_sent_total:
  "TotalProcessed (snd (ProcessQueue limits e s))
     = TotalProcessed s
       + (case sent (fst (ProcessQueue limits e s)) of
            Some b \<Rightarrow> if err (fst (ProcessQueue limits e s)) = None then int (length b) else 0
          | None \<Rightarrow> 0)"
proof (cases limits e s rule: ProcessQueue_cases)
  case accepted
  with batchSize_pos [of s limits e] length_batch [of limits e s]
  show ?thesis by (simp del: take_append length_take)
qed (simp_all add: quiet_def)

lemma roundTrip_None: "roundTrip out = None \<longleftrightarrow> (\<exists>msg. out = Responds True msg)"
  by (cases out) auto

lemma ProcessQueue_confirmed:
  assumes "outcome e = Responds True msg"
      and "sent (fst (ProcessQueue limits e s)) = Some b"
  shows "TotalProcessed (snd (ProcessQueue limits e s)) = TotalProcessed s + int (length b)"
    and "b \<noteq> []"
    and "Queue s @ arrivedBeforeLock e @ arrivedInFlight e
           = b @ Queue (snd (ProcessQueue limits e s))"
proof -
  let ?q = "Queue s @ arrivedBeforeLock e"
  let ?n = "batchSize limits e s"
  note sb = sent_batch [OF assms(2)]
  from assms(1) have r: "roundTrip (outcome e) = None" by simp
  note acc = ProcessQueue_accepted [OF sb(1) sb(2) r]
  from sb(1) sb(2) have pos: "0 < ?n" by (rule batchSize_pos)
  from acc sb(4) show "TotalProcessed (snd (ProcessQueue limits e s))
      = TotalProcessed s + int (length b)"
    by simp
  from pos sb(4) show "b \<noteq> []" by auto
  have "?q @ arrivedInFlight e = (take (nat ?n) ?q @ drop (nat ?n) ?q) @ arrivedInFlight e"
    by (simp only: append_take_drop_id)
  also have "\<dots> = b @ Queue (snd (ProcessQueue limits e s))"
    using acc sb(5) by (simp del: take_append drop_append)
  finally show "Queue s @ arrivedBeforeLock e @ arrivedInFlight e
           = b @ Queue (snd (ProcessQueue limits e s))"
    by simp
qed

lemma ProcessQueue_counted:
  assumes "TotalProcessed (snd (ProcessQueue limits e s)) \<noteq> TotalProcessed s"
  shows "\<exists>msg b. outcome e = Responds True msg \<and> sent (fst (ProcessQueue limits e s)) = Some b"
proof (cases limits e s rule: ProcessQueue_cases)
  case empty
  with assms show ?thesis by simp
next
  case exhausted
  with assms show ?thesis by simp
next
  case marshal
  with assms show ?thesis by simp
next
  case (failed x)
  with assms show ?thesis by simp
next
  case accepted
  then show ?thesis by (simp add: roundTrip_None)
qed

lemma step_counted:
  assumes "TotalProcessed (snd (step limits ev s)) \<noteq> TotalProcessed s"
  shows "\<exists>e msg b. ev = Pass e \<and> running s \<and> outcome e = Responds True msg
           \<and> sent (fst (ProcessQueue limits e s)) = Some b
           \<and> TotalProcessed (snd (step limits ev s)) = TotalProcessed s + int (length b)
           \<and> Queue s @ arrivedBeforeLock e @ arrivedInFlight e
               = b @ Queue (snd (step limits ev s))"
proof (cases ev)
  case (Request bound)
  with assms show ?thesis by (cases bound) (simp_all add: HandleProcess_def split: if_splits)
next
  case StopSignal
  with assms show ?thesis by (simp split: if_splits)
next
  case (Pass e)
  show ?thesis
  proof (cases "running s")
    case False
    with Pass assms show ?thesis by simp
  next
    case True
    with Pass have st: "snd (step limits ev s) = snd (loopPass limits e s)"
      by (simp add: step_Pass del: step.simps)
    with assms have "TotalProcessed (snd (ProcessQueue limits e s)) \<noteq> TotalProcessed s"
      by (simp add: loopPass_globals)
    then obtain msg b where o: "outcome e = Responds True msg"
      and b: "sent (fst (ProcessQueue limits e s)) = Some b"
      using ProcessQueue_counted by blast
    note c = ProcessQueue_confirmed [OF o b]
    from c(1) have "TotalProcessed (snd (step limits ev s)) = TotalProcessed s + int (length b)"
      by (simp add: st loopPass_globals)
    moreover from c(3) have "Queue s @ arrivedBeforeLock e @ arrivedInFlight e
               = b @ Queue (snd (step limits ev s))"
      by (simp add: st loopPass_globals)
    ultimately show ?thesis using Pass True o b by blast
  qed
qed

lemma step_grows: "TotalProcessed s \<le> TotalProcessed (snd (step limits ev s))"
  using step_total [of limits ev s] by simp

lemma run_counts_queue:
  "int (length (enqueued evs (trace limits evs initial)))
     = TotalProcessed (run limits evs initial) + int (length (Queue (run limits evs initial)))"
proof -
  have "enqueued evs (trace limits evs initial)
     = drained (trace limits evs initial) @ Queue (run limits evs initial)"
    using run_queue [of initial evs limits] by (simp add: initial_def)
  then have "int (length (enqueued evs (trace limits evs initial)))
     = int (length (drained (trace limits evs initial)))
       + int (length (Queue (run limits evs initial)))"
    by simp
  moreover have "TotalProcessed (run limits evs initial)
     = int (length (drained (trace limits evs initial)))"
    using run_total [of limits evs initial] by (simp add: initial_def)
  ultimately show ?thesis by simp
qed

section \<open>The map stays within the limit\<close>

lemma total_Cons: "total ((k, c) # items) = c + total items"
  by (simp add: total_def)

lemma total_filter_le:
  "\<forall>x \<in> set items. 0 \<le> snd x \<Longrightarrow> total (filter P items) \<le> total items"
  by (induction items) (auto simp: total_def)

lemma total_nonneg: "\<forall>x \<in> set items. 0 \<le> snd x \<Longrightarrow> 0 \<le> total items"
  by (induction items) (auto simp: total_def)

lemma total_live_le:
  "\<forall>x \<in> set items. 0 \<le> snd x \<Longrightarrow> total (live d clk items) \<le> total items"
  unfolding live_def by (rule total_filter_le)

lemma windowSum_le_total:
  "\<forall>x \<in> set items. 0 \<le> snd x \<Longrightarrow> windowSum d t items \<le> total items"
  unfolding windowSum_def by (rule total_filter_le)

lemma set_live: "set (live d clk items) \<subseteq> set items"
  by (auto simp: live_def)

lemma set_update: "set (AList.update k v items) \<subseteq> insert (k, v) (set items)"
  by (induction items) auto

lemma total_update_le:
  "\<forall>x \<in> set items. 0 \<le> snd x \<Longrightarrow> total (AList.update k v items) \<le> total items + v"
  by (induction items) (auto simp: total_def)

lemma withinQuota_live:
  assumes "withinQuota limits items"
  shows "withinQuota limits (live d clk items)"
proof -
  from assms have "\<forall>x \<in> set items. 0 \<le> snd x" by (auto simp: withinQuota_def)
  then have "total (live d clk items) \<le> total items" by (rule total_live_le)
  with assms set_live [of d clk items] show ?thesis by (auto simp: withinQuota_def)
qed

lemma withinQuota_record:
  assumes inv: "withinQuota limits items"
      and n: "0 < n" "n \<le> sint (Number limits) - total items"
  shows "withinQuota limits (AList.update k n items)"
proof -
  from inv have "\<forall>x \<in> set items. 0 \<le> snd x" by (auto simp: withinQuota_def)
  then have "total (AList.update k n items) \<le> total items + n" by (rule total_update_le)
  with n have "total (AList.update k n items) \<le> max 0 (sint (Number limits))" by simp
  moreover have "\<forall>x \<in> set (AList.update k n items). 0 < snd x"
    using inv n(1) set_update [of k n items] by (auto simp: withinQuota_def)
  ultimately show ?thesis by (simp add: withinQuota_def)
qed

lemma ProcessQueue_withinQuota:
  assumes "withinQuota limits (processedItems s)"
  shows "withinQuota limits (processedItems (snd (ProcessQueue limits e s)))"
proof -
  let ?live = "live (Duration limits) (clockAt e) (processedItems s)"
  from assms have l: "withinQuota limits ?live" by (rule withinQuota_live)
  have r: "withinQuota limits (AList.update (clockRecord e) (batchSize limits e s) ?live)"
    if "Queue s \<noteq> []" "0 < capacity limits e s"
  proof (rule withinQuota_record [OF l])
    from that show "0 < batchSize limits e s" by (rule batchSize_pos)
    show "batchSize limits e s \<le> sint (Number limits) - total ?live"
      using batchSize_le_capacity [of limits e s] by (simp add: capacity_def)
  qed
  show ?thesis
    by (cases limits e s rule: ProcessQueue_cases) (simp_all add: assms l r)
qed

lemma step_withinQuota:
  assumes "withinQuota limits (processedItems s)"
  shows "withinQuota limits (processedItems (snd (step limits ev s)))"
proof (cases ev)
  case (Request bound)
  with assms show ?thesis by (cases bound) (simp_all add: HandleProcess_def)
next
  case StopSignal
  with assms show ?thesis by simp
next
  case (Pass e)
  show ?thesis
  proof (cases "running s")
    case True
    with Pass ProcessQueue_withinQuota [OF assms, of e] show ?thesis
      by (simp add: step_Pass loopPass_globals del: step.simps)
  next
    case False
    with Pass assms show ?thesis by simp
  qed
qed

lemma run_withinQuota:
  "withinQuota limits (processedItems s) \<Longrightarrow>
   withinQuota limits (processedItems (run limits evs s))"
  by (induction evs arbitrary: s) (simp_all add: step_withinQuota)

lemma initial_withinQuota: "withinQuota limits (processedItems initial)"
  by (simp add: withinQuota_def initial_def total_def)

lemma sint_le_uint: "sint (w :: 64 word) \<le> uint w"
proof -
  have "sint w < 2 ^ 63" using sint_lt [of w] by simp
  then have "sint w < 2 ^ 64" by simp
  then have "sint w \<le> take_bit 64 (sint w)" by (simp only: take_bit_int_greater_eq_self_iff)
  then show ?thesis by (simp add: uint_sint)
qed

lemma member_le_total:
  "\<forall>x \<in> set items. 0 \<le> snd x \<Longrightarrow> x \<in> set items \<Longrightarrow> snd x \<le> total items"
proof (induction items)
  case Nil
  then show ?case by simp
next
  case (Cons y items)
  then have "0 \<le> total items" by (simp add: total_nonneg)
  with Cons show ?case by (cases y) (auto simp: total_Cons)
qed

lemma counts_in_range:
  assumes "x \<in> set (processedItems (run limits evs initial))"
  shows "0 < snd x" and "snd x \<le> sint (Number limits)" and "snd x < 2 ^ 63"
proof -
  let ?items = "processedItems (run limits evs initial)"
  have inv: "withinQuota limits ?items"
    by (rule run_withinQuota) (rule initial_withinQuota)
  with assms show pos: "0 < snd x" by (simp add: withinQuota_def)
  from inv have "\<forall>y \<in> set ?items. 0 \<le> snd y" by (auto simp: withinQuota_def)
  with assms have "snd x \<le> total ?items" by (simp add: member_le_total)
  with inv have "snd x \<le> max 0 (sint (Number limits))" by (simp add: withinQuota_def)
  with pos show "snd x \<le> sint (Number limits)" by simp
  with sint_lt [of "Number limits"] show "snd x < 2 ^ 63" by simp
qed

lemma limit_in_range:
  "- (2 ^ 63) \<le> capacity limits e (run limits evs initial)
   \<and> capacity limits e (run limits evs initial) < 2 ^ 63"
proof -
  let ?items = "processedItems (run limits evs initial)"
  let ?live = "live (Duration limits) (clockAt e) ?items"
  have "withinQuota limits ?items"
    by (rule run_withinQuota) (rule initial_withinQuota)
  then have inv: "withinQuota limits ?live" by (rule withinQuota_live)
  then have "\<forall>x \<in> set ?live. 0 \<le> snd x" by (auto simp: withinQuota_def)
  then have lo: "0 \<le> total ?live" by (rule total_nonneg)
  from inv have hi: "total ?live \<le> max 0 (sint (Number limits))" by (simp add: withinQuota_def)
  have "- (2 ^ 63) \<le> sint (Number limits)" and "sint (Number limits) < 2 ^ 63"
    using sint_ge [of "Number limits"] sint_lt [of "Number limits"] by simp_all
  with lo hi show ?thesis by (simp add: capacity_def)
qed

text \<open>
  What the client does keep to: the counts of the entries that are in the map, in any
  interval, add up to at most \<open>N\<close>, and a batch is never larger than \<open>N\<close> minus the counts
  of the entries that the loop has kept.
\<close>

lemma map_within_limit:
  "windowSum (sint (Duration limits)) t (processedItems (run limits evs initial)) \<le> uint (Number limits)
   \<and> (\<forall>e b. sent (fst (ProcessQueue limits e (run limits evs initial))) = Some b \<longrightarrow>
         int (length b) \<le> uint (Number limits)
            - total (live (Duration limits) (clockAt e) (processedItems (run limits evs initial))))"
proof
  let ?items = "processedItems (run limits evs initial)"
  have inv: "withinQuota limits ?items"
    by (rule run_withinQuota) (rule initial_withinQuota)
  then have "\<forall>x \<in> set ?items. 0 \<le> snd x" by (auto simp: withinQuota_def)
  then have "windowSum (sint (Duration limits)) t ?items \<le> total ?items" by (rule windowSum_le_total)
  also from inv have "\<dots> \<le> max 0 (sint (Number limits))" by (simp add: withinQuota_def)
  also have "\<dots> \<le> uint (Number limits)" using sint_le_uint [of "Number limits"] by simp
  finally show "windowSum (sint (Duration limits)) t ?items \<le> uint (Number limits)" .
next
  let ?s = "run limits evs initial"
  show "\<forall>e b. sent (fst (ProcessQueue limits e ?s)) = Some b \<longrightarrow>
         int (length b) \<le> uint (Number limits)
            - total (live (Duration limits) (clockAt e) (processedItems ?s))"
  proof (intro allI impI)
    fix e b
    assume "sent (fst (ProcessQueue limits e ?s)) = Some b"
    then have "int (length b) = batchSize limits e ?s" by (rule sent_batch)
    also have "\<dots> \<le> capacity limits e ?s" by (rule batchSize_le_capacity)
    also have "\<dots> \<le> uint (Number limits)
            - total (live (Duration limits) (clockAt e) (processedItems ?s))"
      using sint_le_uint [of "Number limits"] by (simp add: capacity_def)
    finally show "int (length b) \<le> uint (Number limits)
            - total (live (Duration limits) (clockAt e) (processedItems ?s))" .
  qed
qed

section \<open>The counter of errors\<close>

lemma step_errorsCount:
  "errorsCount (snd (step limits ev s)) = errorsInARow (errorsCount s) [fst (step limits ev s)]"
proof (cases ev)
  case (Request bound)
  then show ?thesis by (cases bound) (simp_all add: HandleProcess_def)
next
  case StopSignal
  then show ?thesis by simp
next
  case (Pass e)
  show ?thesis
  proof (cases "running s")
    case True
    with Pass show ?thesis
      by (simp add: step_Pass loopPass_errorsCount del: step.simps)
  next
    case False
    with Pass show ?thesis by simp
  qed
qed

lemma errorsInARow_Cons:
  "errorsInARow n (ob # obs) = errorsInARow (errorsInARow n [ob]) obs"
  by (cases ob) simp_all

lemma run_errorsCount:
  "errorsCount (run limits evs s) = errorsInARow (errorsCount s) (trace limits evs s)"
proof (induction evs arbitrary: s)
  case Nil
  show ?case by simp
next
  case (Cons ev evs)
  have "errorsCount (run limits (ev # evs) s)
        = errorsInARow (errorsCount (snd (step limits ev s)))
            (trace limits evs (snd (step limits ev s)))"
    by (simp add: Cons.IH)
  also have "\<dots> = errorsInARow (errorsInARow (errorsCount s) [fst (step limits ev s)])
            (trace limits evs (snd (step limits ev s)))"
    by (simp only: step_errorsCount)
  also have "\<dots> = errorsInARow (errorsCount s) (trace limits (ev # evs) s)"
    by (simp add: errorsInARow_Cons [symmetric])
  finally show ?case .
qed

text \<open>The goroutine has returned once the counter is at 10.\<close>

lemma step_stopped:
  assumes "10 \<le> errorsCount s \<longrightarrow> \<not> running s"
  shows "10 \<le> errorsCount (snd (step limits ev s)) \<longrightarrow> \<not> running (snd (step limits ev s))"
proof (cases ev)
  case (Request bound)
  with assms show ?thesis by (cases bound) (simp_all add: HandleProcess_def)
next
  case StopSignal
  with assms show ?thesis by simp
next
  case (Pass e)
  show ?thesis
  proof (cases "running s")
    case True
    with Pass loopPass_running [of limits e s] show ?thesis
      by (simp add: step_Pass del: step.simps)
  next
    case False
    with Pass show ?thesis by simp
  qed
qed

lemma run_stopped:
  "(10 \<le> errorsCount s \<longrightarrow> \<not> running s) \<Longrightarrow>
   10 \<le> errorsCount (run limits evs s) \<longrightarrow> \<not> running (run limits evs s)"
proof (induction evs arbitrary: s)
  case Nil
  then show ?case by simp
next
  case (Cons ev evs)
  from Cons.prems have "10 \<le> errorsCount (snd (step limits ev s))
      \<longrightarrow> \<not> running (snd (step limits ev s))"
    by (rule step_stopped)
  then show ?case using Cons.IH by simp
qed

lemma step_halted:
  "\<not> running s \<Longrightarrow> \<not> running (snd (step limits ev s)) \<and> taken (fst (step limits ev s)) = []
     \<and> (\<forall>r. fst (step limits ev s) \<noteq> Drained r)"
proof (cases ev)
  case (Request bound)
  assume "\<not> running s"
  with Request show ?thesis by (cases bound) (simp_all add: HandleProcess_def)
qed simp_all

lemma run_halted:
  "\<not> running s \<Longrightarrow> \<not> running (run limits evs s) \<and> (\<forall>r. Drained r \<notin> set (trace limits evs s))"
proof (induction evs arbitrary: s)
  case Nil
  then show ?case by simp
next
  case (Cons ev evs)
  from Cons.prems step_halted [of s limits ev]
  have h: "\<not> running (snd (step limits ev s))" and d: "\<forall>r. fst (step limits ev s) \<noteq> Drained r"
    by simp_all
  from Cons.IH [OF h] d show ?case by (auto dest: sym)
qed

lemma ProcessQueue_error:
  assumes "err (fst (ProcessQueue limits e s)) \<noteq> None"
  shows "Queue (snd (ProcessQueue limits e s)) = Queue s @ arrivedBeforeLock e"
    and "TotalProcessed (snd (ProcessQueue limits e s)) = TotalProcessed s"
  using assms by (cases limits e s rule: ProcessQueue_cases; simp add: quiet_def)+

lemma ProcessQueue_idle:
  "Queue s = [] \<or> capacity limits e s \<le> 0 \<Longrightarrow> fst (ProcessQueue limits e s) = quiet"
  by (cases limits e s rule: ProcessQueue_cases) simp_all

lemma run_bounded:
  "errorsCount s \<le> 10 \<Longrightarrow> (10 \<le> errorsCount s \<longrightarrow> \<not> running s) \<Longrightarrow>
   errorsCount (run limits evs s) \<le> 10"
proof (induction evs arbitrary: s)
  case Nil
  then show ?case by simp
next
  case (Cons ev evs)
  have b: "errorsCount (snd (step limits ev s)) \<le> 10"
  proof (cases ev)
    case (Request bound)
    with Cons.prems show ?thesis by (cases bound) (simp_all add: HandleProcess_def)
  next
    case StopSignal
    with Cons.prems show ?thesis by simp
  next
    case (Pass e)
    show ?thesis
    proof (cases "running s")
      case True
      with Cons.prems have "errorsCount s < 10" by auto
      with True Pass show ?thesis by (simp add: step_Pass loopPass_errorsCount del: step.simps)
    next
      case False
      with Pass Cons.prems show ?thesis by simp
    qed
  qed
  from Cons.prems(2) have "10 \<le> errorsCount (snd (step limits ev s))
      \<longrightarrow> \<not> running (snd (step limits ev s))"
    by (rule step_stopped)
  with b show ?case using Cons.IH by simp
qed

lemma failing_passes:
  assumes "list_all failedPass (trace limits (map Pass es) s)"
  shows "Queue (run limits (map Pass es) s) = Queue s @ concat (map arrivedBeforeLock es)
       \<and> TotalProcessed (run limits (map Pass es) s) = TotalProcessed s
       \<and> errorsCount (run limits (map Pass es) s) = errorsCount s + int (length es)"
  using assms
proof (induction es arbitrary: s)
  case Nil
  show ?case by simp
next
  case (Cons e es)
  let ?s = "snd (step limits (Pass e) s)"
  from Cons.prems have f: "failedPass (fst (step limits (Pass e) s))"
    and rest: "list_all failedPass (trace limits (map Pass es) ?s)"
    by simp_all
  from f have r: "running s" by (cases "running s") simp_all
  with f have e: "err (fst (ProcessQueue limits e s)) \<noteq> None"
    by (simp add: step_Pass del: step.simps)
  from r e have "Queue ?s = Queue s @ arrivedBeforeLock e"
    and "TotalProcessed ?s = TotalProcessed s"
    and "errorsCount ?s = errorsCount s + 1"
    by (simp_all add: step_Pass loopPass_globals loopPass_errorsCount ProcessQueue_error
          del: step.simps)
  with Cons.IH [OF rest] show ?case by simp
qed

lemma step_running:
  assumes "ev \<noteq> StopSignal" and "running s \<longleftrightarrow> errorsCount s < 10"
  shows "running (snd (step limits ev s)) \<longleftrightarrow> errorsCount (snd (step limits ev s)) < 10"
proof (cases ev)
  case (Request bound)
  with assms show ?thesis by (cases bound) (simp_all add: HandleProcess_def)
next
  case StopSignal
  with assms show ?thesis by simp
next
  case (Pass e)
  show ?thesis
  proof (cases "running s")
    case True
    with Pass loopPass_running [of limits e s] show ?thesis
      by (simp add: step_Pass del: step.simps)
  next
    case False
    with Pass assms show ?thesis by simp
  qed
qed

lemma run_running:
  "StopSignal \<notin> set evs \<Longrightarrow> (running s \<longleftrightarrow> errorsCount s < 10) \<Longrightarrow>
   running (run limits evs s) \<longleftrightarrow> errorsCount (run limits evs s) < 10"
proof (induction evs arbitrary: s)
  case Nil
  then show ?case by simp
next
  case (Cons ev evs)
  from Cons.prems have "ev \<noteq> StopSignal" by auto
  then have "running (snd (step limits ev s)) \<longleftrightarrow> errorsCount (snd (step limits ev s)) < 10"
    using Cons.prems(2) by (rule step_running)
  with Cons.prems(1) Cons.IH [of "snd (step limits ev s)"] show ?case by simp
qed

lemma HandleProcess_unbound: "HandleProcess (Inl msg) s = (StatusBadRequest msg, s)"
  by (simp add: HandleProcess_def)

section \<open>Pruning in the words of the specification\<close>

lemma sint_add_no_wrap:
  fixes a b :: "64 word"
  assumes "- (2 ^ 63) \<le> sint a + sint b" and "sint a + sint b < 2 ^ 63"
  shows "sint (a + b) = sint a + sint b"
proof -
  have "sint (a + b) = signed_take_bit 63 (sint a + sint b)"
    by (simp add: sint_word_ariths)
  also from assms have "\<dots> = sint a + sint b"
    by (rule signed_take_bit_int_eq_self)
  finally show ?thesis .
qed

lemma uint_eq_sint:
  fixes w :: "64 word"
  assumes "0 \<le> sint w"
  shows "uint w = sint w"
proof -
  have "sint w < 2 ^ 63" using sint_lt [of w] by simp
  then have "sint w < 2 ^ 64" by simp
  with assms have "take_bit 64 (sint w) = sint w" by (simp add: take_bit_int_eq_self)
  then show ?thesis by (simp add: uint_sint)
qed

lemma sint_eq_uint_small:
  fixes w :: "64 word"
  assumes "uint w < 2 ^ 63"
  shows "sint w = uint w"
proof -
  have "sint w = signed_take_bit 63 (uint w)" by (simp add: sint_uint)
  also have "\<dots> = uint w"
  proof (rule signed_take_bit_int_eq_self)
    show "- (2 ^ 63) \<le> uint w" by (rule order_trans [of _ 0]) simp_all
    from assms show "uint w < 2 ^ 63" .
  qed
  finally show ?thesis .
qed

lemma live_survivors:
  assumes "\<forall>x \<in> set items. clk (fst x) = now"
      and "\<forall>x \<in> set items. - (2 ^ 63) \<le> sint (fst x) + sint d \<and> sint (fst x) + sint d < 2 ^ 63"
  shows "live d clk items = survivors (sint d) (sint now) items"
  unfolding live_def survivors_def
proof (rule filter_cong [OF refl])
  fix x assume x: "x \<in> set items"
  obtain ts c where p: "x = (ts, c)" by (cases x)
  from x assms(1) p have c: "clk ts = now" by auto
  from x assms(2) p have "- (2 ^ 63) \<le> sint ts + sint d" and "sint ts + sint d < 2 ^ 63"
    by auto
  then have "sint (ts + d) = sint ts + sint d" by (rule sint_add_no_wrap)
  with c p show "(case x of (timestamp, item) \<Rightarrow> \<not> timestamp + d <s clk timestamp)
      = (case x of (timestamp, item) \<Rightarrow> \<not> sint timestamp + sint d < sint now)"
    by (simp add: word_sless_alt)
qed

lemma burst_trace:
  "map submitted (trace limits10 burst initial)
     = [None, Some [1, 2, 3, 4, 5, 6, 7, 8, 9, 10], None, None,
        Some [11, 12, 13, 14, 15, 16, 17, 18, 19, 20]]"
  by (simp add: run_defs burst_def)

section \<open>Failing calls\<close>

text \<open>
  C3. When a call of \<^verbatim>\<open>ProcessQueue\<close> returns an error, nothing has been taken off the
  queue: the queue is the one before the call, followed by what handlers appended in the
  meantime; the batch that was sent, if one was, is still its prefix, in the same order;
  and \<^verbatim>\<open>TotalProcessed\<close> has not changed.
\<close>

theorem failure_keeps_queue:
  assumes "err (fst (ProcessQueue limits e s)) \<noteq> None"
  shows "Queue (snd (ProcessQueue limits e s)) = Queue s @ arrivedBeforeLock e
       \<and> removed (fst (ProcessQueue limits e s)) = []
       \<and> TotalProcessed (snd (ProcessQueue limits e s)) = TotalProcessed s
       \<and> (\<forall>b. sent (fst (ProcessQueue limits e s)) = Some b \<longrightarrow>
              take (length b) (Queue (snd (ProcessQueue limits e s))) = b)"
proof (cases limits e s rule: ProcessQueue_cases)
  case empty
  with assms show ?thesis by (simp add: quiet_def)
next
  case exhausted
  with assms show ?thesis by (simp add: quiet_def)
next
  case marshal
  then show ?thesis by simp
next
  case (failed x)
  then show ?thesis by (simp add: take_length_take del: take_append length_take)
next
  case accepted
  with assms show ?thesis by simp
qed

theorem failure_keeps_queue_witness:
  "err (fst (ProcessQueue limits10 (envAt 1000 DoFails) (queued [1::nat, 2, 3]))) = Some DoError
   \<and> sent (fst (ProcessQueue limits10 (envAt 1000 DoFails) (queued [1::nat, 2, 3])))
       = Some [1, 2, 3]
   \<and> Queue (snd (ProcessQueue limits10 (envAt 1000 DoFails) (queued [1::nat, 2, 3])))
       = [1, 2, 3]
   \<and> take 3 (Queue (snd (ProcessQueue limits10 (envAt 1000 DoFails) (queued [1::nat, 2, 3]))))
       = [1, 2, 3]"
  using failure_keeps_queue [of limits10 "envAt 1000 DoFails" "queued [1::nat, 2, 3]"]
  by (simp add: run_defs)


text \<open>
  C2, as the specification states it: a call whose submission fails leaves the map as it was. It
  does not. With three items queued and an empty map, the call whose \<^verbatim>\<open>client.Do\<close> fails
  returns the error and has recorded the entry \<open>(1000, 3)\<close>: line 238 comes before the
  request is built and sent.
\<close>

theorem failed_submission_changes_tracker:
  "err (fst (ProcessQueue limits10 (envAt 1000 DoFails) (queued [1::nat, 2, 3]))) = Some DoError
   \<and> processedItems (queued [1::nat, 2, 3]) = []
   \<and> processedItems (snd (ProcessQueue limits10 (envAt 1000 DoFails) (queued [1::nat, 2, 3])))
       = [(1000, 3)]"
  by (simp add: run_defs)

text \<open>
  C2, amended. A call that gets as far as line 238 (the queue is not empty, capacity is
  left, the batch has been serialised) records the entry \<open>(now, n)\<close> before the request
  is sent, whether the submission then fails or succeeds: its map is the pruned map with
  that entry, and \<open>n\<close> is the length of the batch that is sent. A call that returns earlier
  records nothing: on an empty queue the map is untouched, otherwise it is the pruned map.
\<close>

theorem entry_recorded_before_sending:
  "processedItems (snd (ProcessQueue limits e s)) =
     (if Queue s = [] then processedItems s
      else if capacity limits e s \<le> 0 \<or> outcome e = MarshalFails
        then live (Duration limits) (clockAt e) (processedItems s)
      else AList.update (clockRecord e) (batchSize limits e s)
             (live (Duration limits) (clockAt e) (processedItems s)))
   \<and> (\<forall>b. sent (fst (ProcessQueue limits e s)) = Some b \<longrightarrow>
          Queue s \<noteq> [] \<and> 0 < capacity limits e s \<and> outcome e \<noteq> MarshalFails
          \<and> int (length b) = batchSize limits e s)"
proof (cases limits e s rule: ProcessQueue_cases)
  case empty
  then show ?thesis by (simp add: quiet_def)
next
  case exhausted
  then show ?thesis by (simp add: quiet_def)
next
  case marshal
  then show ?thesis by simp
next
  case (failed x)
  with batchSize_pos [of s limits e] length_batch [of limits e s]
  show ?thesis by (simp del: take_append length_take)
next
  case accepted
  then have "outcome e \<noteq> MarshalFails" by (cases "outcome e") auto
  with accepted batchSize_pos [of s limits e] length_batch [of limits e s]
  show ?thesis by (simp del: take_append length_take)
qed

theorem entry_recorded_before_sending_witness:
  "err (fst (ProcessQueue limits10 (envAt 2000 (Responds False ''blocked''))
              (tracking [(1000, 8)] [1::nat, 2, 3])))
     = Some (ErrorResponse ''Error response from server: blocked'')
   \<and> sent (fst (ProcessQueue limits10 (envAt 2000 (Responds False ''blocked''))
              (tracking [(1000, 8)] [1::nat, 2, 3]))) = Some [1, 2]
   \<and> batchSize limits10 (envAt 2000 (Responds False ''blocked''))
              (tracking [(1000, 8)] [1::nat, 2, 3]) = 2
   \<and> processedItems (snd (ProcessQueue limits10 (envAt 2000 (Responds False ''blocked''))
              (tracking [(1000, 8)] [1::nat, 2, 3])))
     = [(1000, 8), (2000, 2)]"
  using entry_recorded_before_sending [of limits10 "envAt 2000 (Responds False ''blocked'')"
      "tracking [(1000, 8)] [1::nat, 2, 3]"]
  by (simp add: run_defs)

section \<open>Successful calls\<close>

text \<open>
  C10. When a call of \<^verbatim>\<open>ProcessQueue\<close> sends a batch and returns without error, the items
  it takes off the queue are the batch it sent, which is a prefix of the queue as it was
  under the lock of line 223; the rest of that queue and the items that handlers appended
  while the request was under way stay in the queue, in their order.
\<close>

theorem removal_is_sent_prefix:
  assumes "err (fst (ProcessQueue limits e s)) = None"
      and "sent (fst (ProcessQueue limits e s)) = Some b"
  shows "removed (fst (ProcessQueue limits e s)) = b
       \<and> b = take (length b) (Queue s @ arrivedBeforeLock e)
       \<and> Queue (snd (ProcessQueue limits e s))
           = drop (length b) (Queue s @ arrivedBeforeLock e) @ arrivedInFlight e"
proof (cases limits e s rule: ProcessQueue_cases)
  case empty
  with assms show ?thesis by (simp add: quiet_def)
next
  case exhausted
  with assms show ?thesis by (simp add: quiet_def)
next
  case marshal
  with assms show ?thesis by simp
next
  case (failed x)
  with assms show ?thesis by simp
next
  case accepted
  let ?q = "Queue s @ arrivedBeforeLock e"
  let ?n = "batchSize limits e s"
  from accepted assms have b: "b = take (nat ?n) ?q" by simp
  from accepted have "0 < ?n" by (simp add: batchSize_pos)
  then have "int (length (take (nat ?n) ?q)) = ?n" by (rule length_batch)
  then have l: "length b = nat ?n" unfolding b by linarith
  from accepted show ?thesis unfolding l by (simp add: b)
qed

theorem removal_is_sent_prefix_witness:
  "sent (fst (ProcessQueue limits10 (envWith 1000 (Responds True []) [4] [5, 6])
      (tracking [(500, 8)] [1::nat, 2, 3]))) = Some [1, 2]
   \<and> removed (fst (ProcessQueue limits10 (envWith 1000 (Responds True []) [4] [5, 6])
      (tracking [(500, 8)] [1::nat, 2, 3]))) = [1, 2]
   \<and> Queue (snd (ProcessQueue limits10 (envWith 1000 (Responds True []) [4] [5, 6])
      (tracking [(500, 8)] [1::nat, 2, 3]))) = [3, 4, 5, 6]"
  using removal_is_sent_prefix [of limits10 "envWith 1000 (Responds True []) [4] [5, 6]"
      "tracking [(500, 8)] [1::nat, 2, 3]" "[1, 2]"]
  by (simp add: run_defs)

section \<open>HandleProcess\<close>

text \<open>
  C8. A request whose list of items is empty is answered with status 400 and the text
  \<^verbatim>\<open>No items provided\<close>, and the state (queue, counters, map) is left as it was; a request with
  a list that is not empty is answered with status 200 and its items are appended to the
  end of the queue in their order. So a request that carries a list is refused exactly
  when the list is empty.
\<close>

theorem enqueue_rejects_only_empty:
  "(fst (HandleProcess (Inr items) s) \<noteq> StatusOK \<longleftrightarrow> items = [])
   \<and> (items = [] \<longrightarrow>
        HandleProcess (Inr items) s = (StatusBadRequest ''No items provided'', s))
   \<and> (items \<noteq> [] \<longrightarrow>
        HandleProcess (Inr items) s = (StatusOK, s\<lparr>Queue := Queue s @ items\<rparr>))"
  by (simp add: HandleProcess_def)

theorem enqueue_rejects_only_empty_witness:
  "HandleProcess (Inr []) (queued [1::nat, 2])
     = (StatusBadRequest ''No items provided'', queued [1, 2])
   \<and> HandleProcess (Inr [3, 4]) (queued [1::nat, 2]) = (StatusOK, queued [1, 2, 3, 4])"
  using enqueue_rejects_only_empty [of "[]" "queued [1::nat, 2]"]
        enqueue_rejects_only_empty [of "[3, 4]" "queued [1::nat, 2]"]
  by (simp add: queued_def initial_def)

section \<open>The limit of the server\<close>

text \<open>
  C4. The limit says that the counts recorded with timestamps in any interval
  \<open>(t - D, t]\<close> add up to at most \<open>N\<close>. The client does not keep to it when two calls read
  the same value of the clock at line 238: the assignment replaces the entry of the first
  call instead of adding to it, and its count is forgotten. With the limits of the mock
  server, calls that record at 1000 ns, at 1000 ns again and at 2000 ns send 6, 4 and 2
  items: 12 items with timestamps in one interval of 15 seconds, where \<open>N\<close> is 10, while the
  map holds the counts 4 and 2.
\<close>

theorem collision_overruns_quota:
  "map submitted (trace limits10 collide initial)
     = [None, Some [1, 2, 3, 4, 5, 6], None, Some [7, 8, 9, 10], Some [11, 12]]
   \<and> recorded collide (trace limits10 collide initial) = [(1000, 6), (1000, 4), (2000, 2)]
   \<and> windowSum (sint (Duration limits10)) 2000 (recorded collide (trace limits10 collide initial))
       = 12
   \<and> uint (Number limits10) = 10
   \<and> processedItems (run limits10 collide initial) = [(1000, 4), (2000, 2)]"
  by (simp add: run_defs collide_def recorded_def windowSum_def total_def)

text \<open>
  The same happens without any coincidence of the clock when the server's duration is so
  large that \<open>timestamp + D\<close> leaves the range of \<^verbatim>\<open>int64\<close>: the sum wraps around, every entry
  counts as expired, and a second call sends again at once.
\<close>

lemma wrapped_deadline_overruns_quota:
  "map submitted (trace forever
      [Request (Inr [1::nat, 2, 3, 4, 5, 6, 7, 8, 9, 10, 11, 12]),
       Pass (envAt 1000 (Responds True [])), Pass (envAt 2000 (Responds True []))] initial)
     = [None, Some [1, 2, 3, 4, 5, 6, 7, 8, 9, 10], Some [11, 12]]"
  by (simp add: run_defs forever_def)

section \<open>Order of the items\<close>

text \<open>
  C5. For every run of the client from its start, with requests, passes of the loop and
  stop signals in any order: the items that the calls of \<^verbatim>\<open>ProcessQueue\<close> took off the queue,
  in the order of their removal, followed by the items still in the queue, are the items
  that were appended, in the order in which they were appended. So what has been removed is
  a prefix of what has been appended: nothing is removed twice and nothing is skipped.
\<close>

theorem fifo_order:
  "enqueued evs (trace limits evs initial)
     = drained (trace limits evs initial) @ Queue (run limits evs initial)
   \<and> prefix (drained (trace limits evs initial)) (enqueued evs (trace limits evs initial))"
proof -
  have "enqueued evs (trace limits evs initial)
     = drained (trace limits evs initial) @ Queue (run limits evs initial)"
    using run_queue [of initial evs limits] by (simp add: initial_def)
  then show ?thesis by simp
qed

theorem fifo_order_witness:
  "enqueued [Request (Inr [1::nat, 2, 3]), Pass (envWith 1000 (Responds True []) [4] [5]),
             Request (Inr [6])]
     (trace limits1 [Request (Inr [1::nat, 2, 3]), Pass (envWith 1000 (Responds True []) [4] [5]),
             Request (Inr [6])] initial) = [1, 2, 3, 4, 5, 6]
   \<and> drained (trace limits1 [Request (Inr [1::nat, 2, 3]),
        Pass (envWith 1000 (Responds True []) [4] [5]), Request (Inr [6])] initial) = [1]
   \<and> Queue (run limits1 [Request (Inr [1::nat, 2, 3]),
        Pass (envWith 1000 (Responds True []) [4] [5]), Request (Inr [6])] initial)
      = [2, 3, 4, 5, 6]"
  using fifo_order [of "[Request (Inr [1::nat, 2, 3]),
        Pass (envWith 1000 (Responds True []) [4] [5]), Request (Inr [6])]" limits1]
  by (simp add: run_defs enqueued_def drained_def)

section \<open>TotalProcessed\<close>

text \<open>
  C9. No step makes \<^verbatim>\<open>TotalProcessed\<close> smaller. A step changes it only when it is a pass of
  the running loop whose submission the server answers with \<^verbatim>\<open>Success\<close>, and then, as on
  every such pass, it adds the size of the batch that was sent, which is not empty, and that
  batch is what has left the queue: the queue before the call with what handlers appended
  is the batch followed by the queue after the call. After every run from the start the
  counter and the length of the queue add up to the number of items that were appended,
  so the counter is the number of items that have left the queue. With the limits of the
  mock server, a request with five items and one successful call leave the queue empty
  and the counter at 5.
\<close>

theorem total_processed_counts_removed:
  "TotalProcessed s \<le> TotalProcessed (snd (step limits ev s))
   \<and> (TotalProcessed (snd (step limits ev s)) \<noteq> TotalProcessed s \<longrightarrow>
        (\<exists>e msg b. ev = Pass e \<and> running s \<and> outcome e = Responds True msg
           \<and> sent (fst (ProcessQueue limits e s)) = Some b
           \<and> TotalProcessed (snd (step limits ev s)) = TotalProcessed s + int (length b)
           \<and> Queue s @ arrivedBeforeLock e @ arrivedInFlight e
               = b @ Queue (snd (step limits ev s))))
   \<and> (running s \<and> outcome e = Responds True msg
        \<and> sent (fst (ProcessQueue limits e s)) = Some b \<longrightarrow>
        TotalProcessed (snd (step limits (Pass e) s)) = TotalProcessed s + int (length b)
        \<and> b \<noteq> []
        \<and> Queue s @ arrivedBeforeLock e @ arrivedInFlight e
            = b @ Queue (snd (step limits (Pass e) s)))
   \<and> int (length (enqueued evs (trace limits evs initial)))
       = TotalProcessed (run limits evs initial) + int (length (Queue (run limits evs initial)))
   \<and> run limits10 [Request (Inr [1::nat, 2, 3, 4, 5]), Pass (envAt 1000 (Responds True []))]
        initial
       = \<lparr>Queue = [], TotalProcessed = 5, processedItems = [(1000, 5)], errorsCount = 0,
          running = True\<rparr>"
proof (intro conjI)
  show "TotalProcessed s \<le> TotalProcessed (snd (step limits ev s))" by (rule step_grows)
  show "TotalProcessed (snd (step limits ev s)) \<noteq> TotalProcessed s \<longrightarrow>
        (\<exists>e msg b. ev = Pass e \<and> running s \<and> outcome e = Responds True msg
           \<and> sent (fst (ProcessQueue limits e s)) = Some b
           \<and> TotalProcessed (snd (step limits ev s)) = TotalProcessed s + int (length b)
           \<and> Queue s @ arrivedBeforeLock e @ arrivedInFlight e
               = b @ Queue (snd (step limits ev s)))"
    using step_counted by blast
  show "running s \<and> outcome e = Responds True msg
        \<and> sent (fst (ProcessQueue limits e s)) = Some b \<longrightarrow>
        TotalProcessed (snd (step limits (Pass e) s)) = TotalProcessed s + int (length b)
        \<and> b \<noteq> []
        \<and> Queue s @ arrivedBeforeLock e @ arrivedInFlight e
            = b @ Queue (snd (step limits (Pass e) s))"
  proof (intro impI, elim conjE)
    assume r: "running s" and o: "outcome e = Responds True msg"
      and b: "sent (fst (ProcessQueue limits e s)) = Some b"
    note c = ProcessQueue_confirmed [OF o b]
    from r c show "TotalProcessed (snd (step limits (Pass e) s)) = TotalProcessed s + int (length b)
        \<and> b \<noteq> []
        \<and> Queue s @ arrivedBeforeLock e @ arrivedInFlight e
            = b @ Queue (snd (step limits (Pass e) s))"
      by (simp add: step_Pass loopPass_globals del: step.simps)
  qed
  show "int (length (enqueued evs (trace limits evs initial)))
       = TotalProcessed (run limits evs initial) + int (length (Queue (run limits evs initial)))"
    by (rule run_counts_queue)
  show "run limits10 [Request (Inr [1::nat, 2, 3, 4, 5]), Pass (envAt 1000 (Responds True []))]
        initial
       = \<lparr>Queue = [], TotalProcessed = 5, processedItems = [(1000, 5)], errorsCount = 0,
          running = True\<rparr>"
    by (simp add: run_defs)
qed

theorem total_processed_counts_removed_witness:
  "running (queued [1::nat, 2, 3, 4, 5, 6, 7, 8, 9, 10, 11, 12])
   \<and> sent (fst (ProcessQueue limits10 (envAt 1000 (Responds True []))
        (queued [1::nat, 2, 3, 4, 5, 6, 7, 8, 9, 10, 11, 12])))
       = Some [1, 2, 3, 4, 5, 6, 7, 8, 9, 10]
   \<and> TotalProcessed (snd (step limits10 (Pass (envAt 1000 (Responds True [])))
        (queued [1::nat, 2, 3, 4, 5, 6, 7, 8, 9, 10, 11, 12]))) = 10
   \<and> Queue (snd (step limits10 (Pass (envAt 1000 (Responds True [])))
        (queued [1::nat, 2, 3, 4, 5, 6, 7, 8, 9, 10, 11, 12]))) = [11, 12]"
  using total_processed_counts_removed [of "queued [1::nat, 2, 3, 4, 5, 6, 7, 8, 9, 10, 11, 12]"
          limits10 "Pass (envAt 1000 (Responds True []))" "envAt 1000 (Responds True [])" "[]"
          "[1, 2, 3, 4, 5, 6, 7, 8, 9, 10]" "[]"]
  by (simp add: run_defs)

section \<open>The counter of errors and the end of the loop\<close>

text \<open>
  C6, as the specification states it: the counter is the number of failed submissions since the
  last successful one, and a call that makes no submission does not reset it. It does.
  With a limit of one item and one item queued, the first call sends the item and fails,
  the second call finds no capacity left, makes no submission and returns \<^verbatim>\<open>nil\<close>: one
  submission has failed since the start and none has succeeded, and the counter is 0.
\<close>

theorem idle_pass_resets_counter:
  "trace limits1 [Request (Inr [1::nat]), Pass (envAt 1000 DoFails), Pass (envAt 2000 DoFails)]
      initial
     = [Answered StatusOK,
        Drained \<lparr>err = Some DoError, sent = Some [1], removed = [], joined = []\<rparr>,
        Drained \<lparr>err = None, sent = None, removed = [], joined = []\<rparr>]
   \<and> failedSinceSuccess 0 (trace limits1
        [Request (Inr [1::nat]), Pass (envAt 1000 DoFails), Pass (envAt 2000 DoFails)] initial) = 1
   \<and> errorsCount (run limits1
        [Request (Inr [1::nat]), Pass (envAt 1000 DoFails), Pass (envAt 2000 DoFails)] initial) = 0"
  by (simp add: run_defs)

text \<open>
  C6, amended. At the top of every pass of the loop \<^verbatim>\<open>errorsCount\<close> is the number of calls
  of \<^verbatim>\<open>ProcessQueue\<close> in a row, up to now, that returned an error. A pass adds one to it
  exactly when its call returns an error and sets it to 0 exactly when its call returns
  \<^verbatim>\<open>nil\<close>: after a successful submission, and also when the call makes no submission
  because the queue is empty or no capacity is left. Requests do not change it.
\<close>

theorem errorsCount_meaning:
  "errorsCount (run limits evs initial) = errorsInARow 0 (trace limits evs initial)
   \<and> errorsCount (snd (loopPass limits e s))
       = (if err (fst (ProcessQueue limits e s)) \<noteq> None then errorsCount s + 1 else 0)
   \<and> (Queue s = [] \<or> capacity limits e s \<le> 0 \<longrightarrow> errorsCount (snd (loopPass limits e s)) = 0)
   \<and> errorsCount (snd (HandleProcess bound s)) = errorsCount s"
proof (intro conjI)
  show "errorsCount (run limits evs initial) = errorsInARow 0 (trace limits evs initial)"
    using run_errorsCount [of limits evs initial] by (simp add: initial_def)
  show "errorsCount (snd (loopPass limits e s))
       = (if err (fst (ProcessQueue limits e s)) \<noteq> None then errorsCount s + 1 else 0)"
    by (rule loopPass_errorsCount)
  show "Queue s = [] \<or> capacity limits e s \<le> 0 \<longrightarrow> errorsCount (snd (loopPass limits e s)) = 0"
    by (simp add: loopPass_errorsCount ProcessQueue_idle quiet_def)
  show "errorsCount (snd (HandleProcess bound s)) = errorsCount s"
    by (cases bound) (simp_all add: HandleProcess_def)
qed

theorem errorsCount_meaning_witness:
  "capacity limits1 (envAt 2000 DoFails) (tracking [(1000, 1)] [1::nat]) = 0
   \<and> errorsCount (snd (loopPass limits1 (envAt 2000 DoFails)
        ((tracking [(1000, 1)] [1::nat])\<lparr>errorsCount := 1\<rparr>))) = 0
   \<and> errorsCount (snd (loopPass limits1 (envAt 1000 DoFails) (queued [1::nat]))) = 1"
  using errorsCount_meaning [of limits1 "[]" "envAt 2000 DoFails"
          "(tracking [(1000, 1)] [1::nat])\<lparr>errorsCount := 1\<rparr>"]
        errorsCount_meaning [of limits1 "[]" "envAt 1000 DoFails" "queued [1::nat]"]
  by (simp add: run_defs capacity_def live_def total_def)

text \<open>
  C1, as the specification states it: after 10 failed submissions in a row, with no successful one
  in between, the loop has stopped. It has not. In the outage above (limit 10, three
  items queued, every submission failing) ten submissions fail and none succeeds, and the
  goroutine is still running with its counter at 2 and will submit again: every attempt
  uses up capacity, so after four attempts a call finds none left, returns \<^verbatim>\<open>nil\<close>, and
  the counter is back at 0.
\<close>

theorem outage_never_stops:
  "map failedPass (trace limits10 outage initial)
     = [False, True, True, True, True, False, True, True, True, True, False, True, True]
   \<and> failedSinceSuccess 0 (trace limits10 outage initial) = 10
   \<and> running (run limits10 outage initial)
   \<and> errorsCount (run limits10 outage initial) = 2
   \<and> sent (fst (ProcessQueue limits10 (envAt 40000000003 DoFails) (run limits10 outage initial)))
       = Some [1, 2, 3]"
  by (simp add: run_defs outage_def)

text \<open>
  C1, amended. After 10 calls of \<^verbatim>\<open>ProcessQueue\<close> in a row that each return an error, with no
  call in between that returns \<^verbatim>\<open>nil\<close> (which a successful submission does, and also a call
  that makes no submission because the queue is empty or no capacity is left), the
  goroutine has returned; the number of errors in a row never passes 10, and without a
  stop signal the goroutine runs exactly as long as that number is below 10; once the
  goroutine has returned it stays so and no further call of \<^verbatim>\<open>ProcessQueue\<close> is made. In particular, when ten passes
  in a row fail from a running state with the counter at 0, the loop has stopped, the
  queue holds the items it held (and what handlers appended), and \<^verbatim>\<open>TotalProcessed\<close> is
  unchanged.
\<close>

theorem ten_errors_stop_loop:
  "(10 \<le> errorsInARow 0 (trace limits evs initial) \<longrightarrow> \<not> running (run limits evs initial))
   \<and> errorsInARow 0 (trace limits evs initial) \<le> 10
   \<and> (StopSignal \<notin> set evs \<longrightarrow>
        (running (run limits evs initial) \<longleftrightarrow> errorsInARow 0 (trace limits evs initial) < 10))
   \<and> (\<not> running s \<longrightarrow>
        \<not> running (run limits evs s) \<and> (\<forall>r. Drained r \<notin> set (trace limits evs s)))
   \<and> (running s \<and> errorsCount s = 0 \<and> length es = 10
        \<and> list_all failedPass (trace limits (map Pass es) s) \<longrightarrow>
        \<not> running (run limits (map Pass es) s)
        \<and> Queue (run limits (map Pass es) s) = Queue s @ concat (map arrivedBeforeLock es)
        \<and> TotalProcessed (run limits (map Pass es) s) = TotalProcessed s)"
proof (intro conjI)
  have c: "errorsCount (run limits evs initial) = errorsInARow 0 (trace limits evs initial)"
    using run_errorsCount [of limits evs initial] by (simp add: initial_def)
  have "10 \<le> errorsCount (run limits evs initial) \<longrightarrow> \<not> running (run limits evs initial)"
    by (rule run_stopped) (simp add: initial_def)
  then show "10 \<le> errorsInARow 0 (trace limits evs initial)
      \<longrightarrow> \<not> running (run limits evs initial)"
    by (simp only: c)
  have "errorsCount (run limits evs initial) \<le> 10"
    by (rule run_bounded) (simp_all add: initial_def)
  then show "errorsInARow 0 (trace limits evs initial) \<le> 10" by (simp only: c)
  show "StopSignal \<notin> set evs \<longrightarrow>
        (running (run limits evs initial) \<longleftrightarrow> errorsInARow 0 (trace limits evs initial) < 10)"
  proof
    assume "StopSignal \<notin> set evs"
    then have "running (run limits evs initial) \<longleftrightarrow> errorsCount (run limits evs initial) < 10"
      by (rule run_running) (simp add: initial_def)
    then show "running (run limits evs initial)
        \<longleftrightarrow> errorsInARow 0 (trace limits evs initial) < 10"
      by (simp only: c)
  qed
  show "\<not> running s \<longrightarrow>
        \<not> running (run limits evs s) \<and> (\<forall>r. Drained r \<notin> set (trace limits evs s))"
    using run_halted [of s limits evs] by blast
  show "running s \<and> errorsCount s = 0 \<and> length es = 10
        \<and> list_all failedPass (trace limits (map Pass es) s) \<longrightarrow>
        \<not> running (run limits (map Pass es) s)
        \<and> Queue (run limits (map Pass es) s) = Queue s @ concat (map arrivedBeforeLock es)
        \<and> TotalProcessed (run limits (map Pass es) s) = TotalProcessed s"
  proof (intro impI, elim conjE)
    assume s: "running s" "errorsCount s = 0" "length es = 10"
      and f: "list_all failedPass (trace limits (map Pass es) s)"
    from failing_passes [OF f] s
    have q: "Queue (run limits (map Pass es) s) = Queue s @ concat (map arrivedBeforeLock es)"
      and t: "TotalProcessed (run limits (map Pass es) s) = TotalProcessed s"
      and n: "errorsCount (run limits (map Pass es) s) = 10"
      by simp_all
    have "10 \<le> errorsCount (run limits (map Pass es) s)
        \<longrightarrow> \<not> running (run limits (map Pass es) s)"
      by (rule run_stopped) (simp add: s)
    with n q t show "\<not> running (run limits (map Pass es) s)
        \<and> Queue (run limits (map Pass es) s) = Queue s @ concat (map arrivedBeforeLock es)
        \<and> TotalProcessed (run limits (map Pass es) s) = TotalProcessed s"
      by simp
  qed
qed

theorem ten_errors_stop_loop_witness:
  "running (queued [1::nat, 2, 3]) \<and> errorsCount (queued [1::nat, 2, 3]) = 0
   \<and> length tenFailures = 10
   \<and> list_all failedPass (trace limits30 (map Pass tenFailures) (queued [1, 2, 3]))
   \<and> \<not> running (run limits30 (map Pass tenFailures) (queued [1, 2, 3]))
   \<and> Queue (run limits30 (map Pass tenFailures) (queued [1, 2, 3])) = [1, 2, 3]
   \<and> TotalProcessed (run limits30 (map Pass tenFailures) (queued [1, 2, 3])) = 0
   \<and> errorsInARow 0 (trace limits30 (Request (Inr [1, 2, 3]) # map Pass tenFailures) initial) = 10
   \<and> \<not> running (run limits30 (Request (Inr [1, 2, 3]) # map Pass tenFailures) initial)"
  using ten_errors_stop_loop [of limits30 "Request (Inr [1, 2, 3]) # map Pass tenFailures"
          "queued [1, 2, 3]" tenFailures]
  by (simp add: run_defs tenFailures_def)

section \<open>Capacity and size of the batch\<close>

text \<open>
  C7, as the specification states it: the batch has the size \<open>min(remaining, queueLength)\<close>
  where \<open>remaining\<close> is \<^verbatim>\<open>RemainingCapacity(now)\<close>. The loop of lines 211 to 217 reads the
  clock again for every entry, so there need not be one \<open>now\<close>. After the run \<open>twoEntries\<close>
  the map holds \<open>(1000, 3)\<close> and \<open>(2000, 5)\<close> and the queue ten items. A call whose loop reads
  15000001000 ns at the first entry keeps it, reads 15000002001 ns at the second and
  deletes it, and sends 7 items; at the first of its readings of the clock
  \<^verbatim>\<open>RemainingCapacity\<close> is 2, at the two others it is 10.
\<close>

theorem split_clock_batch:
  "processedItems (run limits10 twoEntries initial) = [(1000, 3), (2000, 5)]
   \<and> length (Queue (run limits10 twoEntries initial)) = 10
   \<and> sent (fst (ProcessQueue limits10 splitClock (run limits10 twoEntries initial)))
       = Some [9, 10, 11, 12, 13, 14, 15]
   \<and> RemainingCapacity 10 15000000000 15000001000 [(1000, 3), (2000, 5)] = 2
   \<and> RemainingCapacity 10 15000000000 15000002001 [(1000, 3), (2000, 5)] = 10
   \<and> RemainingCapacity 10 15000000000 15000002002 [(1000, 3), (2000, 5)] = 10"
  by (simp add: run_defs twoEntries_def splitClock_def RemainingCapacity_def survivors_def
        total_def)

text \<open>
  For no value of \<open>now\<close> at all is 7 the smaller of \<^verbatim>\<open>RemainingCapacity(now)\<close> and the length
  of that queue. And a limit of \<open>2 ^ 63\<close> items, which \<^verbatim>\<open>int(limits.Number)\<close> turns into a
  negative number, leaves \<^verbatim>\<open>RemainingCapacity\<close> positive while nothing is sent.
\<close>

lemma no_single_now:
  "min (RemainingCapacity 10 15000000000 now [(1000, 3), (2000, 5)]) 10 \<noteq> 7"
  by (simp add: RemainingCapacity_def survivors_def total_def)

lemma big_quota_sends_nothing:
  "RemainingCapacity (uint (9223372036854775808 :: 64 word)) 15000000000 1000 [] > 0
   \<and> ProcessQueue \<lparr>Number = 9223372036854775808, Duration = 15000000000\<rparr>
        (envAt 1000 (Responds True [])) (queued [1::nat, 2, 3])
       = (quiet, queued [1, 2, 3])"
  by (simp add: run_defs RemainingCapacity_def survivors_def total_def)

text \<open>
  C7, amended. In every call of \<^verbatim>\<open>ProcessQueue\<close> the loop of lines 211 to 217 tests each
  entry against the clock as read when it visits that entry, deletes it when
  \<open>timestamp + D\<close>, added in \<^verbatim>\<open>int64\<close>, is below that reading, and leaves in \<^verbatim>\<open>limit\<close> the
  number \<^verbatim>\<open>int(limits.Number)\<close> minus the sum of the counts of the entries it keeps. A batch
  is sent only when the queue is not empty and that number is positive, its size is the
  smaller of that number and the length of the queue, and it is the prefix of the queue
  of that size; when the queue is not empty and the number is positive a batch is sent
  indeed, unless serialising or building the request fails. When every reading of the
  clock in the loop is the same \<open>now\<close> and no \<open>timestamp + D\<close> leaves the range of \<^verbatim>\<open>int64\<close>,
  the entries kept are those that the specification's \<^verbatim>\<open>RemainingCapacity(now)\<close> keeps, and
  for \<open>N\<close> below \<open>2 ^ 63\<close> the number, cut off at 0, is \<^verbatim>\<open>RemainingCapacity(now)\<close>. In
  scenario B (limit 10, 25 items) the first call sends 10 items, the calls up to 15
  seconds after it send nothing, and the call after that sends the next 10.
\<close>

theorem capacity_and_batch:
  "pruneLoop (Duration limits) (clockAt e) (processedItems s) (sint (Number limits))
     = (live (Duration limits) (clockAt e) (processedItems s), capacity limits e s)
   \<and> (\<forall>b. sent (fst (ProcessQueue limits e s)) = Some b \<longrightarrow>
          Queue s \<noteq> [] \<and> 0 < capacity limits e s
          \<and> int (length b)
              = min (capacity limits e s) (int (length (Queue s @ arrivedBeforeLock e)))
          \<and> b = take (length b) (Queue s @ arrivedBeforeLock e))
   \<and> (Queue s \<noteq> [] \<and> 0 < capacity limits e s
        \<and> outcome e \<noteq> MarshalFails \<and> outcome e \<noteq> NewRequestFails \<longrightarrow>
        sent (fst (ProcessQueue limits e s)) \<noteq> None)
   \<and> ((\<forall>x \<in> set (processedItems s).
           clockAt e (fst x) = now
           \<and> - (2 ^ 63) \<le> sint (fst x) + sint (Duration limits)
           \<and> sint (fst x) + sint (Duration limits) < 2 ^ 63) \<longrightarrow>
        live (Duration limits) (clockAt e) (processedItems s)
          = survivors (sint (Duration limits)) (sint now) (processedItems s)
        \<and> (uint (Number limits) < 2 ^ 63 \<longrightarrow>
             max 0 (capacity limits e s)
               = RemainingCapacity (uint (Number limits)) (sint (Duration limits)) (sint now)
                   (processedItems s)))
   \<and> map submitted (trace limits10 burst initial)
       = [None, Some [1, 2, 3, 4, 5, 6, 7, 8, 9, 10], None, None,
          Some [11, 12, 13, 14, 15, 16, 17, 18, 19, 20]]"
proof -
  let ?items = "processedItems s"
  let ?q = "Queue s @ arrivedBeforeLock e"
  have c1: "pruneLoop (Duration limits) (clockAt e) ?items (sint (Number limits))
     = (live (Duration limits) (clockAt e) ?items, capacity limits e s)"
    by (simp add: pruneLoop_eq capacity_def)
  have c2: "\<forall>b. sent (fst (ProcessQueue limits e s)) = Some b \<longrightarrow>
          Queue s \<noteq> [] \<and> 0 < capacity limits e s
          \<and> int (length b) = min (capacity limits e s) (int (length ?q))
          \<and> b = take (length b) ?q"
  proof (intro allI impI)
    fix b assume "sent (fst (ProcessQueue limits e s)) = Some b"
    note sb = sent_batch [OF this]
    from sb(4) have n: "int (length b) = min (capacity limits e s) (int (length ?q))"
      by (simp only: batchSize_def)
    from sb(4) sb(5) have "b = take (length b) ?q" by (metis nat_int)
    with sb(1) sb(2) n show "Queue s \<noteq> [] \<and> 0 < capacity limits e s
          \<and> int (length b) = min (capacity limits e s) (int (length ?q))
          \<and> b = take (length b) ?q"
      by blast
  qed
  have c3: "Queue s \<noteq> [] \<and> 0 < capacity limits e s
        \<and> outcome e \<noteq> MarshalFails \<and> outcome e \<noteq> NewRequestFails \<longrightarrow>
        sent (fst (ProcessQueue limits e s)) \<noteq> None"
  proof (intro impI, elim conjE)
    assume q: "Queue s \<noteq> []" and c: "0 < capacity limits e s"
      and m: "outcome e \<noteq> MarshalFails" and r: "outcome e \<noteq> NewRequestFails"
    show "sent (fst (ProcessQueue limits e s)) \<noteq> None"
    proof (cases "roundTrip (outcome e)")
      case None
      with q c show ?thesis by (simp add: ProcessQueue_accepted)
    next
      case (Some x)
      with q c m r show ?thesis by (simp add: ProcessQueue_failed)
    qed
  qed
  have c4: "(\<forall>x \<in> set ?items.
           clockAt e (fst x) = now
           \<and> - (2 ^ 63) \<le> sint (fst x) + sint (Duration limits)
           \<and> sint (fst x) + sint (Duration limits) < 2 ^ 63) \<longrightarrow>
        live (Duration limits) (clockAt e) ?items
          = survivors (sint (Duration limits)) (sint now) ?items
        \<and> (uint (Number limits) < 2 ^ 63 \<longrightarrow>
             max 0 (capacity limits e s)
               = RemainingCapacity (uint (Number limits)) (sint (Duration limits)) (sint now)
                   ?items)"
  proof
    assume h: "\<forall>x \<in> set ?items.
           clockAt e (fst x) = now
           \<and> - (2 ^ 63) \<le> sint (fst x) + sint (Duration limits)
           \<and> sint (fst x) + sint (Duration limits) < 2 ^ 63"
    then have "\<forall>x \<in> set ?items. clockAt e (fst x) = now"
      and "\<forall>x \<in> set ?items. - (2 ^ 63) \<le> sint (fst x) + sint (Duration limits)
             \<and> sint (fst x) + sint (Duration limits) < 2 ^ 63"
      by blast+
    then have l: "live (Duration limits) (clockAt e) ?items
          = survivors (sint (Duration limits)) (sint now) ?items"
      by (rule live_survivors)
    have "max 0 (capacity limits e s)
               = RemainingCapacity (uint (Number limits)) (sint (Duration limits)) (sint now)
                   ?items"
      if "uint (Number limits) < 2 ^ 63"
      using sint_eq_uint_small [OF that] by (simp add: capacity_def l RemainingCapacity_def)
    with l show "live (Duration limits) (clockAt e) ?items
          = survivors (sint (Duration limits)) (sint now) ?items
        \<and> (uint (Number limits) < 2 ^ 63 \<longrightarrow>
             max 0 (capacity limits e s)
               = RemainingCapacity (uint (Number limits)) (sint (Duration limits)) (sint now)
                   ?items)"
      by blast
  qed
  show ?thesis
    by (intro conjI) (rule c1 c2 c3 c4 burst_trace)+
qed

theorem capacity_and_batch_witness:
  "processedItems (run limits10 [Request (Inr [1::nat, 2, 3]), Pass (envAt 1000 DoFails)] initial)
     = [(1000, 3)]
   \<and> capacity limits10 (envAt 2000 (Responds True []))
        (run limits10 [Request (Inr [1::nat, 2, 3]), Pass (envAt 1000 DoFails)] initial) = 7
   \<and> RemainingCapacity 10 15000000000 2000 [(1000, 3)] = 7
   \<and> sent (fst (ProcessQueue limits10 (envAt 2000 (Responds True []))
        (run limits10 [Request (Inr [1::nat, 2, 3]), Pass (envAt 1000 DoFails)] initial)))
      = Some [1, 2, 3]"
  using capacity_and_batch [of limits10 "envAt 2000 (Responds True [])"
          "run limits10 [Request (Inr [1::nat, 2, 3]), Pass (envAt 1000 DoFails)] initial" 2000]
  by (simp add: run_defs RemainingCapacity_def survivors_def total_def capacity_def live_def)

end
